theory Spec2Isabelle
  imports Main "HOL-Library.Word" "HOL-Library.AList"
begin

section \<open>Text helpers of the JavaScript runtime\<close>

text \<open>
  Strings are byte strings: a \<^typ>\<open>string\<close> holds the UTF-8 form of the JavaScript string.
  A \<open>Buffer\<close> is a list of bytes.
\<close>

type_synonym byte = "8 word"

text \<open>\<open>Buffer.toString("hex")\<close>: two lower-case hexadecimal digits for every byte.\<close>

definition hexDigit :: "nat \<Rightarrow> char" where
  "hexDigit d = (if d < 10 then char_of (48 + d) else char_of (87 + d))"

definition byteHex :: "byte \<Rightarrow> string" where
  "byteHex b = [hexDigit (unat b div 16), hexDigit (unat b mod 16)]"

definition toHex :: "byte list \<Rightarrow> string" where
  "toHex bs = concat (map byteHex bs)"

text \<open>The decimal form of a non-negative integer, as a template literal prints it.\<close>

definition digitChar :: "nat \<Rightarrow> char" where
  "digitChar d = char_of (48 + d)"

fun showNat :: "nat \<Rightarrow> string" where
  "showNat n = (if n < 10 then [digitChar n] else showNat (n div 10) @ [digitChar (n mod 10)])"

declare showNat.simps [simp del]

definition showInt :: "int \<Rightarrow> string" where
  "showInt i = (if i < 0 then CHR ''-'' # showNat (nat (- i)) else showNat (nat i))"

text \<open>\<open>Array.prototype.join\<close>, \<open>String.prototype.startsWith\<close>, \<open>String.prototype.split\<close>
  with a one-character separator, and an index read that is \<open>undefined\<close> out of range.\<close>

fun joinWith :: "string \<Rightarrow> string list \<Rightarrow> string" where
  "joinWith sep [] = []"
| "joinWith sep [x] = x"
| "joinWith sep (x # y # ys) = x @ sep @ joinWith sep (y # ys)"

definition startsWith :: "string \<Rightarrow> string \<Rightarrow> bool" where
  "startsWith s p = (take (length p) s = p)"

fun splitOn :: "char \<Rightarrow> string \<Rightarrow> string list" where
  "splitOn sep [] = [[]]"
| "splitOn sep (c # cs) =
     (if c = sep then [] # splitOn sep cs
      else (case splitOn sep cs of
              [] \<Rightarrow> [[c]]
            | x # xs \<Rightarrow> (c # x) # xs))"

fun nthOpt :: "'a list \<Rightarrow> nat \<Rightarrow> 'a option" where
  "nthOpt [] i = None"
| "nthOpt (x # xs) 0 = Some x"
| "nthOpt (x # xs) (Suc i) = nthOpt xs i"

subsection \<open>The query string of a URL\<close>

text \<open>
  \<open>URLSearchParams\<close> serialises with the \<open>application/x-www-form-urlencoded\<close> byte
  serialiser: letters, digits and \<open>* - . _\<close> stay, a space becomes \<open>+\<close>, every other byte becomes
  \<open>%\<close> and two upper-case hexadecimal digits. Pairs are joined by \<open>&\<close>.
\<close>

definition HexDigit :: "nat \<Rightarrow> char" where
  "HexDigit d = (if d < 10 then char_of (48 + d) else char_of (55 + d))"

definition formSafe :: "char \<Rightarrow> bool" where
  "formSafe c = (let n = of_char c :: nat in
     (48 \<le> n \<and> n \<le> 57) \<or> (65 \<le> n \<and> n \<le> 90) \<or> (97 \<le> n \<and> n \<le> 122) \<or>
     n = 42 \<or> n = 45 \<or> n = 46 \<or> n = 95)"

definition formByte :: "char \<Rightarrow> string" where
  "formByte c =
     (if c = CHR '' '' then ''+''
      else if formSafe c then [c]
      else [CHR ''%'', HexDigit (of_char c div 16), HexDigit (of_char c mod 16)])"

definition formEncode :: "string \<Rightarrow> string" where
  "formEncode s = concat (map formByte s)"

definition formPair :: "string \<times> string \<Rightarrow> string" where
  "formPair p = formEncode (fst p) @ ''='' @ formEncode (snd p)"

definition searchParamsToString :: "(string \<times> string) list \<Rightarrow> string" where
  "searchParamsToString ps = joinWith ''&'' (map formPair ps)"

text \<open>\<open>URL.toString()\<close> for a URL without a query of its own, after the parameters were
  appended to its \<open>searchParams\<close>.\<close>

definition urlToString :: "string \<Rightarrow> (string \<times> string) list \<Rightarrow> string" where
  "urlToString base ps = (if ps = [] then base else base @ ''?'' @ searchParamsToString ps)"

text \<open>The reader of the same format: what the receiving side recovers from the query string.\<close>

definition hexValue :: "char \<Rightarrow> nat option" where
  "hexValue c = (let n = of_char c :: nat in
     if 48 \<le> n \<and> n \<le> 57 then Some (n - 48)
     else if 65 \<le> n \<and> n \<le> 70 then Some (n - 55)
     else if 97 \<le> n \<and> n \<le> 102 then Some (n - 87)
     else None)"

fun formDecode :: "string \<Rightarrow> string" where
  "formDecode [] = []"
| "formDecode (c # cs) =
     (if c = CHR ''+'' then CHR '' '' # formDecode cs
      else if c = CHR ''%'' then
        (case cs of
           h # l # rest \<Rightarrow>
             (case (hexValue h, hexValue l) of
                (Some a, Some b) \<Rightarrow> char_of (a * 16 + b) # formDecode rest
              | _ \<Rightarrow> c # formDecode cs)
         | _ \<Rightarrow> c # formDecode cs)
      else c # formDecode cs)"

definition parsePair :: "string \<Rightarrow> string \<times> string" where
  "parsePair p =
     (let k = takeWhile (\<lambda>c. c \<noteq> CHR ''='') p
      in (formDecode k, formDecode (drop (Suc (length k)) p)))"

definition parseQuery :: "string \<Rightarrow> (string \<times> string) list" where
  "parseQuery q = map parsePair (filter (\<lambda>p. p \<noteq> []) (splitOn CHR ''&'' q))"

section \<open>JSON text\<close>

text \<open>
  \<open>JSON.stringify\<close> and \<open>JSON.parse\<close> of the runtime, over the values a credential is made of.
  Numbers are integers in the safe range: a literal with a fraction or an exponent, an integer
  beyond \<open>2^53 - 1\<close> and a \<open>\\u\<close> escape beyond ASCII are valid JSON whose value the model does
  not compute (\<open>NotModelled\<close>). Members of an object are kept in the order of insertion, a
  repeated key keeping its place and taking the later value. \<open>JSON_stringify\<close> is the text of the
  runtime for safe integers and for objects without integer-like keys (the runtime prints larger
  numbers in exponent form and lists integer-like keys first); the statements below use it for
  such values only.

  The errors of the whole development: a \<open>SyntaxError\<close> of \<open>JSON.parse\<close>, \<open>ENOENT\<close> of the file
  system, an exception thrown by the platform SDK, and the two outcomes that belong to the model
  alone (\<open>NotModelled\<close>, \<open>OutOfFuel\<close>).
\<close>

datatype error = SyntaxError | ENOENT | NotModelled | OutOfFuel | Thrown string

datatype json = JNull | JBool bool | JNum int | JStr string
  | JArr "json list" | JObj "(string \<times> json) list"

fun truthy :: "json \<Rightarrow> bool" where
  "truthy JNull = False"
| "truthy (JBool b) = b"
| "truthy (JNum n) = (n \<noteq> 0)"
| "truthy (JStr s) = (s \<noteq> [])"
| "truthy (JArr vs) = True"
| "truthy (JObj ms) = True"

definition quoteChar :: "char \<Rightarrow> string" where
  "quoteChar c =
     (if c = CHR 0x22 then [CHR 0x5C, CHR 0x22]
      else if c = CHR 0x5C then [CHR 0x5C, CHR 0x5C]
      else if c = CHR 0x08 then [CHR 0x5C, CHR ''b'']
      else if c = CHR 0x0C then [CHR 0x5C, CHR ''f'']
      else if c = CHR 0x0A then [CHR 0x5C, CHR ''n'']
      else if c = CHR 0x0D then [CHR 0x5C, CHR ''r'']
      else if c = CHR 0x09 then [CHR 0x5C, CHR ''t'']
      else if (of_char c :: nat) < 32 then
        [CHR 0x5C, CHR ''u'', CHR ''0'', CHR ''0'', hexDigit (of_char c div 16), hexDigit (of_char c mod 16)]
      else [c])"

definition quoteJSON :: "string \<Rightarrow> string" where
  "quoteJSON s = CHR 0x22 # concat (map quoteChar s) @ [CHR 0x22]"

fun JSON_stringify :: "json \<Rightarrow> string"
  and stringifyElems :: "json list \<Rightarrow> string"
  and stringifyMembers :: "(string \<times> json) list \<Rightarrow> string" where
  "JSON_stringify JNull = ''null''"
| "JSON_stringify (JBool b) = (if b then ''true'' else ''false'')"
| "JSON_stringify (JNum n) = showInt n"
| "JSON_stringify (JStr s) = quoteJSON s"
| "JSON_stringify (JArr vs) = ''['' @ stringifyElems vs @ '']''"
| "JSON_stringify (JObj ms) = ''{'' @ stringifyMembers ms @ ''}''"
| "stringifyElems [] = []"
| "stringifyElems [v] = JSON_stringify v"
| "stringifyElems (v # w # vs) = JSON_stringify v @ '','' @ stringifyElems (w # vs)"
| "stringifyMembers [] = []"
| "stringifyMembers [(k, v)] = quoteJSON k @ '':'' @ JSON_stringify v"
| "stringifyMembers ((k, v) # m # ms) =
     quoteJSON k @ '':'' @ JSON_stringify v @ '','' @ stringifyMembers (m # ms)"

definition isWs :: "char \<Rightarrow> bool" where
  "isWs c = (c = CHR '' '' \<or> c = CHR 0x09 \<or> c = CHR 0x0A \<or> c = CHR 0x0D)"

fun skipWs :: "string \<Rightarrow> string" where
  "skipWs [] = []"
| "skipWs (c # cs) = (if isWs c then skipWs cs else c # cs)"

definition isDigit :: "char \<Rightarrow> bool" where
  "isDigit c = (48 \<le> (of_char c :: nat) \<and> (of_char c :: nat) \<le> 57)"

definition hex4 :: "char \<Rightarrow> char \<Rightarrow> char \<Rightarrow> char \<Rightarrow> nat option" where
  "hex4 a b c d =
     (case (hexValue a, hexValue b, hexValue c, hexValue d) of
        (Some w, Some x, Some y, Some z) \<Rightarrow> Some (((w * 16 + x) * 16 + y) * 16 + z)
      | _ \<Rightarrow> None)"

definition unescape :: "char \<Rightarrow> char option" where
  "unescape e =
     (if e = CHR 0x22 then Some (CHR 0x22)
      else if e = CHR 0x5C then Some (CHR 0x5C)
      else if e = CHR ''/'' then Some (CHR ''/'')
      else if e = CHR ''b'' then Some (CHR 0x08)
      else if e = CHR ''f'' then Some (CHR 0x0C)
      else if e = CHR ''n'' then Some (CHR 0x0A)
      else if e = CHR ''r'' then Some (CHR 0x0D)
      else if e = CHR ''t'' then Some (CHR 0x09)
      else None)"

definition consChar :: "char \<Rightarrow> error + (string \<times> string) \<Rightarrow> error + (string \<times> string)" where
  "consChar c r = (case r of Inl e \<Rightarrow> Inl e | Inr (s, rest) \<Rightarrow> Inr (c # s, rest))"

fun parseChars :: "string \<Rightarrow> error + (string \<times> string)" where
  "parseChars [] = Inl SyntaxError"
| "parseChars (c # cs) =
     (if c = CHR 0x22 then Inr ([], cs)
      else if c = CHR 0x5C then
        (case cs of
           [] \<Rightarrow> Inl SyntaxError
         | e # rest \<Rightarrow>
             if e = CHR ''u'' then
               (case rest of
                  h1 # h2 # h3 # h4 # rest' \<Rightarrow>
                    (case hex4 h1 h2 h3 h4 of
                       None \<Rightarrow> Inl SyntaxError
                     | Some n \<Rightarrow>
                         if n < 128 then consChar (char_of n) (parseChars rest')
                         else Inl NotModelled)
                | _ \<Rightarrow> Inl SyntaxError)
             else
               (case unescape e of
                  None \<Rightarrow> Inl SyntaxError
                | Some x \<Rightarrow> consChar x (parseChars rest)))
      else if (of_char c :: nat) < 32 then Inl SyntaxError
      else consChar c (parseChars cs))"

definition digitValue :: "char \<Rightarrow> nat" where
  "digitValue c = of_char c - 48"

definition natOfDigits :: "string \<Rightarrow> nat" where
  "natOfDigits ds = foldl (\<lambda>a c. a * 10 + digitValue c) 0 ds"

definition MAX_SAFE_INTEGER :: nat where
  "MAX_SAFE_INTEGER = 2 ^ 53 - 1"

definition fracPart :: "string \<Rightarrow> (bool \<times> string) option" where
  "fracPart cs =
     (case cs of
        c # rest \<Rightarrow>
          if c = CHR ''.'' then
            (if takeWhile isDigit rest = [] then None else Some (True, dropWhile isDigit rest))
          else Some (False, cs)
      | [] \<Rightarrow> Some (False, cs))"

definition expPart :: "string \<Rightarrow> (bool \<times> string) option" where
  "expPart cs =
     (case cs of
        c # rest \<Rightarrow>
          if c = CHR ''e'' \<or> c = CHR ''E'' then
            (let ds = (case rest of
                         s # r \<Rightarrow> if s = CHR ''+'' \<or> s = CHR ''-'' then r else rest
                       | [] \<Rightarrow> rest)
             in if takeWhile isDigit ds = [] then None else Some (True, dropWhile isDigit ds))
          else Some (False, cs)
      | [] \<Rightarrow> Some (False, cs))"

definition parseNumber :: "string \<Rightarrow> error + (json \<times> string)" where
  "parseNumber cs =
     (let neg = (case cs of c # _ \<Rightarrow> c = CHR ''-'' | [] \<Rightarrow> False);
          body = (if neg then tl cs else cs);
          ds = (case body of
                  c # _ \<Rightarrow> if c = CHR ''0'' then [c] else takeWhile isDigit body
                | [] \<Rightarrow> []);
          after = drop (length ds) body
      in if ds = [] then Inl SyntaxError
         else case fracPart after of
           None \<Rightarrow> Inl SyntaxError
         | Some (hasFrac, after1) \<Rightarrow>
             (case expPart after1 of
                None \<Rightarrow> Inl SyntaxError
              | Some (hasExp, after2) \<Rightarrow>
                  if hasFrac \<or> hasExp \<or> natOfDigits ds > MAX_SAFE_INTEGER then Inl NotModelled
                  else Inr (JNum (if neg then - int (natOfDigits ds) else int (natOfDigits ds)), after2)))"

definition parseLiteral :: "string \<Rightarrow> error + (json \<times> string)" where
  "parseLiteral cs =
     (if take 4 cs = ''null'' then Inr (JNull, drop 4 cs)
      else if take 4 cs = ''true'' then Inr (JBool True, drop 4 cs)
      else if take 5 cs = ''false'' then Inr (JBool False, drop 5 cs)
      else Inl SyntaxError)"

fun parseValue :: "nat \<Rightarrow> string \<Rightarrow> error + (json \<times> string)"
  and parseElems :: "nat \<Rightarrow> json list \<Rightarrow> string \<Rightarrow> error + (json \<times> string)"
  and parseMembers :: "nat \<Rightarrow> (string \<times> json) list \<Rightarrow> string \<Rightarrow> error + (json \<times> string)" where
  "parseValue 0 cs = Inl OutOfFuel"
| "parseValue (Suc n) cs =
     (case skipWs cs of
        [] \<Rightarrow> Inl SyntaxError
      | c # rest \<Rightarrow>
          if c = CHR ''{'' then
            (case skipWs rest of
               [] \<Rightarrow> Inl SyntaxError
             | d # r \<Rightarrow> if d = CHR ''}'' then Inr (JObj [], r) else parseMembers n [] rest)
          else if c = CHR ''['' then
            (case skipWs rest of
               [] \<Rightarrow> Inl SyntaxError
             | d # r \<Rightarrow> if d = CHR '']'' then Inr (JArr [], r) else parseElems n [] rest)
          else if c = CHR 0x22 then
            (case parseChars rest of Inl e \<Rightarrow> Inl e | Inr (s, r) \<Rightarrow> Inr (JStr s, r))
          else if c = CHR ''-'' \<or> isDigit c then parseNumber (c # rest)
          else parseLiteral (c # rest))"
| "parseElems 0 acc cs = Inl OutOfFuel"
| "parseElems (Suc n) acc cs =
     (case parseValue n cs of
        Inl e \<Rightarrow> Inl e
      | Inr (v, rest) \<Rightarrow>
          (case skipWs rest of
             [] \<Rightarrow> Inl SyntaxError
           | d # r \<Rightarrow>
               if d = CHR '','' then parseElems n (acc @ [v]) r
               else if d = CHR '']'' then Inr (JArr (acc @ [v]), r)
               else Inl SyntaxError))"
| "parseMembers 0 acc cs = Inl OutOfFuel"
| "parseMembers (Suc n) acc cs =
     (case skipWs cs of
        [] \<Rightarrow> Inl SyntaxError
      | q # r0 \<Rightarrow>
          if q \<noteq> CHR 0x22 then Inl SyntaxError
          else
            (case parseChars r0 of
               Inl e \<Rightarrow> Inl e
             | Inr (k, r1) \<Rightarrow>
                 (case skipWs r1 of
                    [] \<Rightarrow> Inl SyntaxError
                  | colon # r2 \<Rightarrow>
                      if colon \<noteq> CHR '':'' then Inl SyntaxError
                      else
                        (case parseValue n r2 of
                           Inl e \<Rightarrow> Inl e
                         | Inr (v, r3) \<Rightarrow>
                             (case skipWs r3 of
                                [] \<Rightarrow> Inl SyntaxError
                              | d # r4 \<Rightarrow>
                                  if d = CHR '','' then parseMembers n (AList.update k v acc) r4
                                  else if d = CHR ''}'' then Inr (JObj (AList.update k v acc), r4)
                                  else Inl SyntaxError)))))"

definition JSON_parse :: "string \<Rightarrow> error + json" where
  "JSON_parse s =
     (case parseValue (2 * length s + 1) s of
        Inl e \<Rightarrow> Inl e
      | Inr (v, rest) \<Rightarrow> if skipWs rest = [] then Inr v else Inl SyntaxError)"

section \<open>The cache folder\<close>

text \<open>
  The folder \<open>_cache\<close> under the working directory, as \<open>fs/promises\<close> sees it: it is missing, or
  it lists regular files by name, each with its text. An entry name with a path separator or a
  NUL byte does not name an entry of the folder itself: nothing is modelled for it. Limits of the
  file system (permissions, name length, space) are left out.
\<close>

datatype cache = Missing | Folder "(string \<times> string) list"

definition entryName :: "string \<Rightarrow> bool" where
  "entryName n = (CHR ''/'' \<notin> set n \<and> CHR 0x00 \<notin> set n)"

definition fs_readdir :: "cache \<Rightarrow> error + string list" where
  "fs_readdir fs = (case fs of Missing \<Rightarrow> Inl ENOENT | Folder fl \<Rightarrow> Inr (map fst fl))"

definition fs_readFile :: "string \<Rightarrow> cache \<Rightarrow> error + string" where
  "fs_readFile n fs =
     (if \<not> entryName n then Inl NotModelled
      else case fs of
        Missing \<Rightarrow> Inl ENOENT
      | Folder fl \<Rightarrow> (case map_of fl n of None \<Rightarrow> Inl ENOENT | Some text \<Rightarrow> Inr text))"

definition fs_writeFile :: "string \<Rightarrow> string \<Rightarrow> cache \<Rightarrow> error + cache" where
  "fs_writeFile n text fs =
     (if \<not> entryName n then Inl NotModelled
      else case fs of
        Missing \<Rightarrow> Inl ENOENT
      | Folder fl \<Rightarrow> Inr (Folder (AList.update n text fl)))"

text \<open>\<open>fs.rm(path)\<close> without the \<open>force\<close> option: a missing file is an error.\<close>

definition fs_rm :: "string \<Rightarrow> cache \<Rightarrow> error + cache" where
  "fs_rm n fs =
     (if \<not> entryName n then Inl NotModelled
      else case fs of
        Missing \<Rightarrow> Inl ENOENT
      | Folder fl \<Rightarrow>
          (case map_of fl n of
             None \<Rightarrow> Inl ENOENT
           | Some text \<Rightarrow> Inr (Folder (AList.delete n fl))))"

text \<open>
  A call of an \<open>async\<close> method of the server that reaches the file system is a request: the
  caller that awaits it performs it and sees its error; a caller that does not await it only
  starts it, and the request is settled once the caller's synchronous run has ended.
\<close>

datatype fsop = WriteFile string string | Rm string

fun perform :: "fsop \<Rightarrow> cache \<Rightarrow> error + cache" where
  "perform (WriteFile n text) fs = fs_writeFile n text fs"
| "perform (Rm n) fs = fs_rm n fs"

text \<open>A request nobody awaits: its rejection reaches no handler and the folder stays as it was.\<close>

definition settle :: "fsop \<Rightarrow> cache \<Rightarrow> cache" where
  "settle op fs = (case perform op fs of Inl e \<Rightarrow> fs | Inr fs' \<Rightarrow> fs')"

section \<open>The server\<close>

record TwitchConfig =
  clientId :: string
  clientSecret :: string

record BotConfig =
  user :: string
  channel :: string

text \<open>\<open>ServerConfig\<close>; \<open>port\<close> and \<open>hostName\<close> may be left out of the parsed file (the constructor
  supplies \<open>??\<close> defaults).\<close>

record ServerConfig =
  twitch :: TwitchConfig
  bot :: BotConfig
  port :: "nat option"
  hostName :: "string option"

text \<open>
  The fields of class \<open>Server\<close> that the handlers read or write. \<open>twitchAuthState\<close> holds the own
  properties of the object; the \<open>Timeout\<close> stored under a key is given by the time it is due.
  \<open>clock\<close> (milliseconds) and \<open>timeouts\<close> (the pending \<open>setTimeout\<close> callbacks, each with its due
  time and the \<open>state\<close> its closure captured, in the order they were set) are the part of the
  event loop the server uses.
\<close>

record Server =
  port :: nat
  hostName :: string
  fullyQualifiedHostName :: string
  twitchConfig :: TwitchConfig
  botConfig :: BotConfig
  twitchAuthState :: "string \<rightharpoonup> nat"
  twitchScopes :: "string list"
  clock :: nat
  timeouts :: "(nat \<times> string) list"

definition DEFAULT_TWITCH_AUTH_TIMEOUT :: nat where
  "DEFAULT_TWITCH_AUTH_TIMEOUT = 1000 * 60 * 5"

definition newServer :: "ServerConfig \<Rightarrow> Server" where
  "newServer options =
     (let p = (case ServerConfig.port options of Some p \<Rightarrow> p | None \<Rightarrow> 13371);
          h = (case ServerConfig.hostName options of Some h \<Rightarrow> h | None \<Rightarrow> ''localhost'')
      in \<lparr> port = p,
           hostName = h,
           fullyQualifiedHostName = ''http://'' @ h @ (if p \<noteq> 0 then '':'' @ showNat p else []),
           twitchConfig = twitch options,
           botConfig = bot options,
           twitchAuthState = Map.empty,
           twitchScopes = [''chat:read'', ''chat:edit'', ''channel:read:redemptions'',
                           ''channel:manage:redemptions'', ''moderator:read:followers''],
           clock = 0,
           timeouts = [] \<rparr>)"

subsection \<open>Property reads on \<open>twitchAuthState\<close>\<close>

text \<open>
  \<open>twitchAuthState\<close> is created by the object literal \<open>{}\<close>, so a property read that finds no own
  property goes on to \<open>Object.prototype\<close>. These are its property names; each holds a function
  (\<open>__proto__\<close>: the prototype object itself), which is truthy like a stored \<open>Timeout\<close>.
  \<open>delete\<close> removes an own property only.
\<close>

definition objectPrototype :: "string list" where
  "objectPrototype =
     [''constructor'', ''__defineGetter__'', ''__defineSetter__'', ''hasOwnProperty'',
      ''__lookupGetter__'', ''__lookupSetter__'', ''isPrototypeOf'', ''propertyIsEnumerable'',
      ''toString'', ''valueOf'', ''__proto__'', ''toLocaleString'']"

datatype 'a property = Own 'a | Inherited | Undefined

definition getProperty :: "(string \<rightharpoonup> 'a) \<Rightarrow> string \<Rightarrow> 'a property" where
  "getProperty obj k =
     (case obj k of
        Some v \<Rightarrow> Own v
      | None \<Rightarrow> if k \<in> set objectPrototype then Inherited else Undefined)"

fun truthyProperty :: "'a property \<Rightarrow> bool" where
  "truthyProperty (Own v) = True"
| "truthyProperty Inherited = True"
| "truthyProperty Undefined = False"

definition deleteProperty :: "(string \<rightharpoonup> 'a) \<Rightarrow> string \<Rightarrow> (string \<rightharpoonup> 'a)" where
  "deleteProperty obj k = obj(k := None)"

subsection \<open>\<open>GET /twitch/auth\<close>\<close>

text \<open>What a handler sends: the status, the \<open>Location\<close> header when it was set, and the body.\<close>

record Response =
  status :: nat
  location :: "string option"
  body :: string

text \<open>
  \<open>routeRedirectTwitchAuth\<close>. The twenty bytes that \<open>crypto.randomBytes(20)\<close> returns are an
  argument. The assignment stores the new \<open>Timeout\<close> under the key and \<open>setTimeout\<close> queues its
  callback.
\<close>

definition routeRedirectTwitchAuth :: "byte list \<Rightarrow> Server \<Rightarrow> Server \<times> Response" where
  "routeRedirectTwitchAuth randomBytes srv =
     (let st = toHex randomBytes;
          due = clock srv + DEFAULT_TWITCH_AUTH_TIMEOUT;
          srv' = srv \<lparr> twitchAuthState := (twitchAuthState srv)(st \<mapsto> due),
                       timeouts := timeouts srv @ [(due, st)] \<rparr>;
          url = urlToString ''https://id.twitch.tv/oauth2/authorize''
                  [(''client_id'', clientId (twitchConfig srv)),
                   (''redirect_uri'', fullyQualifiedHostName srv @ ''/twitch/auth-callback''),
                   (''response_type'', ''code''),
                   (''scope'', joinWith '' '' (twitchScopes srv)),
                   (''state'', st)]
      in (srv', \<lparr> status = 302, location = Some url, body = [] \<rparr>))"

text \<open>The callback given to \<open>setTimeout\<close>, for the \<open>state\<close> it captured.\<close>

definition timeoutCallback :: "string \<Rightarrow> Server \<Rightarrow> Server" where
  "timeoutCallback st srv =
     (if truthyProperty (getProperty (twitchAuthState srv) st)
      then srv \<lparr> twitchAuthState := deleteProperty (twitchAuthState srv) st \<rparr>
      else srv)"

text \<open>
  Time passes between two handlers: the clock moves on by \<open>ms\<close> and the callbacks that are due
  by then run, in the order they were set (all have the same delay).
\<close>

definition elapse :: "nat \<Rightarrow> Server \<Rightarrow> Server" where
  "elapse ms srv =
     (let t = clock srv + ms;
          fired = filter (\<lambda>d. fst d \<le> t) (timeouts srv);
          srv' = fold (\<lambda>d. timeoutCallback (snd d)) fired srv
      in srv' \<lparr> clock := t, timeouts := filter (\<lambda>d. \<not> fst d \<le> t) (timeouts srv) \<rparr>)"

subsection \<open>\<open>GET /twitch/auth-callback\<close>\<close>

text \<open>
  The platform SDK (\<open>RefreshingAuthProvider\<close>, \<open>ApiClient\<close>) is outside the repository: what
  its calls return or throw in one run is a parameter. \<open>getAccessTokenForUser\<close> and \<open>getUserById\<close>
  return \<open>null\<close> (\<open>JNull\<close>, \<open>None\<close>) when they find nothing.
\<close>

record HelixUser =
  helixId :: string
  name :: string

record Twitch =
  addUserForCode :: "string \<Rightarrow> error + string"
  getAccessTokenForUser :: "string \<Rightarrow> error + json"
  getUserById :: "string \<Rightarrow> error + HelixUser option"
  addUser :: "string \<Rightarrow> json \<Rightarrow> error + unit"

text \<open>
  What a run does to the outside, in order. \<open>Start\<close> is a file request that was started and not
  awaited, \<open>Settled\<close> the moment it is done. \<open>thrown\<close> is the error an \<open>async\<close> method rejects
  with; nothing in the server catches it.
\<close>

datatype effect =
    AddUserForCode string
  | GetAccessTokenForUser string
  | GetUserById string
  | AddUser string json
  | Start fsop
  | Settled fsop
  | ConsoleLog string
  | ConsoleLogUser HelixUser
  | ConsoleError string
  | CreateBot HelixUser
  | Send Response

record Run =
  effects :: "effect list"
  thrown :: "error option"

text \<open>\<open>req.query\<close>: each parameter is absent or a string.\<close>

record Query =
  query_code :: "string option"
  query_state :: "string option"

definition given :: "string option \<Rightarrow> bool" where
  "given p = (case p of None \<Rightarrow> False | Some s \<Rightarrow> s \<noteq> [])"

definition paramText :: "string option \<Rightarrow> string" where
  "paramText p = (case p of None \<Rightarrow> [] | Some s \<Rightarrow> s)"

definition invalidRequest :: Response where
  "invalidRequest = \<lparr> status = 400, location = None, body = ''Invalid request.'' \<rparr>"

definition serverError :: "string \<Rightarrow> Response" where
  "serverError msg = \<lparr> status = 500, location = None, body = msg \<rparr>"

definition cacheFileName :: "string \<Rightarrow> string" where
  "cacheFileName userId = ''twitch.'' @ userId @ ''.json''"

definition cacheTwitchAccessToken :: "string \<Rightarrow> json \<Rightarrow> fsop" where
  "cacheTwitchAccessToken userId accessToken =
     WriteFile (cacheFileName userId) (JSON_stringify accessToken)"

definition uncacheTwitchAccessToken :: "string \<Rightarrow> fsop" where
  "uncacheTwitchAccessToken userId = Rm (cacheFileName userId)"

text \<open>
  \<open>routeTwitchAuthCallback\<close>. The check and the \<open>delete\<close> run without an \<open>await\<close> between them;
  nothing after the \<open>delete\<close> reads \<open>twitchAuthState\<close>. \<open>cacheTwitchAccessToken\<close> and \<open>createBot\<close>
  are called without \<open>await\<close>.
\<close>

definition routeTwitchAuthCallback :: "Twitch \<Rightarrow> Query \<Rightarrow> Server \<Rightarrow> Server \<times> Run" where
  "routeTwitchAuthCallback sdk q srv =
     (let authorizationCode = paramText (query_code q);
          st = paramText (query_state q)
      in
      if \<not> given (query_code q) \<or> \<not> given (query_state q) \<or>
         \<not> truthyProperty (getProperty (twitchAuthState srv) st)
      then (srv, \<lparr> effects = [Send invalidRequest], thrown = None \<rparr>)
      else
        (let srv' = srv \<lparr> twitchAuthState := deleteProperty (twitchAuthState srv) st \<rparr> in
         case addUserForCode sdk authorizationCode of
           Inl e \<Rightarrow> (srv', \<lparr> effects = [AddUserForCode authorizationCode], thrown = Some e \<rparr>)
         | Inr twitchUserId \<Rightarrow>
             (case getAccessTokenForUser sdk twitchUserId of
                Inl e \<Rightarrow>
                  (srv', \<lparr> effects = [AddUserForCode authorizationCode,
                                       GetAccessTokenForUser twitchUserId],
                            thrown = Some e \<rparr>)
              | Inr accessToken \<Rightarrow>
                  if \<not> truthy accessToken
                  then (srv', \<lparr> effects = [AddUserForCode authorizationCode,
                                            GetAccessTokenForUser twitchUserId,
                                            Send (serverError ''Failed to get access token.'')],
                                 thrown = None \<rparr>)
                  else
                    (case getUserById sdk twitchUserId of
                       Inl e \<Rightarrow>
                         (srv', \<lparr> effects = [AddUserForCode authorizationCode,
                                              GetAccessTokenForUser twitchUserId,
                                              GetUserById twitchUserId],
                                   thrown = Some e \<rparr>)
                     | Inr None \<Rightarrow>
                         (srv', \<lparr> effects = [AddUserForCode authorizationCode,
                                              GetAccessTokenForUser twitchUserId,
                                              GetUserById twitchUserId,
                                              Send (serverError ''Failed to load user.'')],
                                   thrown = None \<rparr>)
                     | Inr (Some u) \<Rightarrow>
                         (srv', \<lparr> effects =
                                     [AddUserForCode authorizationCode,
                                      GetAccessTokenForUser twitchUserId,
                                      GetUserById twitchUserId,
                                      Start (cacheTwitchAccessToken twitchUserId accessToken),
                                      ConsoleLogUser u]
                                     @ (if name u = user (botConfig srv) then [CreateBot u] else [])
                                     @ [Send \<lparr> status = 200, location = None,
                                               body = ''welcome '' @ name u @ ''!'' \<rparr>],
                                   thrown = None \<rparr>)))))"

text \<open>What the handler answered, if it answered.\<close>

fun answer :: "effect list \<Rightarrow> Response option" where
  "answer [] = None"
| "answer (Send r # es) = Some r"
| "answer (e # es) = answer es"

fun startedOps :: "effect list \<Rightarrow> fsop list" where
  "startedOps [] = []"
| "startedOps (Start op # es) = op # startedOps es"
| "startedOps (e # es) = startedOps es"

text \<open>
  One turn of the event loop for the callback: the handler runs to its end, and only then are the
  file requests it started settled (no \<open>await\<close> stands between \<open>cacheTwitchAccessToken\<close> and the
  end of the handler, so no I/O completion can run in between).
\<close>

definition callbackTurn :: "Twitch \<Rightarrow> Query \<Rightarrow> Server \<times> cache \<Rightarrow> (Server \<times> cache) \<times> effect list" where
  "callbackTurn sdk q s =
     (let (srv', r) = routeTwitchAuthCallback sdk q (fst s);
          ops = startedOps (effects r)
      in ((srv', fold settle ops (snd s)), effects r @ map Settled ops))"

subsection \<open>Loading the cached tokens at start\<close>

text \<open>Lines 289 and 290 of the loop: the file is read and its text parsed.\<close>

definition readCachedToken :: "string \<Rightarrow> cache \<Rightarrow> error + json" where
  "readCachedToken fileName fs =
     (case fs_readFile fileName fs of Inl e \<Rightarrow> Inl e | Inr text \<Rightarrow> JSON_parse text)"

text \<open>\<open>fileName.split(".")[1]\<close>.\<close>

definition userIdOf :: "string \<Rightarrow> string option" where
  "userIdOf fileName = nthOpt (splitOn CHR ''.'' fileName) (Suc 0)"

text \<open>
  The body of the loop of \<open>loadCachedTwitchAccessTokens\<close> for one file name: \<open>continue\<close> and the
  end of the body give a run that threw nothing. \<open>uncacheTwitchAccessToken\<close> and \<open>createBot\<close> are
  called without \<open>await\<close>. (An \<open>undefined\<close> user id cannot arise after the prefix test; the model
  has no value for it.) A run that ends with \<open>NotModelled\<close> is no run of the code: for a file with
  valid JSON whose value the model does not compute, the code goes on with that value and the
  model says nothing.
\<close>

definition loadEntry :: "Twitch \<Rightarrow> Server \<Rightarrow> cache \<Rightarrow> string \<Rightarrow> Run" where
  "loadEntry sdk srv fs fileName =
     (if \<not> startsWith fileName ''twitch.'' then \<lparr> effects = [], thrown = None \<rparr>
      else case userIdOf fileName of
        None \<Rightarrow> \<lparr> effects = [], thrown = Some NotModelled \<rparr>
      | Some userId \<Rightarrow>
          (case readCachedToken fileName fs of
             Inl e \<Rightarrow> \<lparr> effects = [], thrown = Some e \<rparr>
           | Inr accessToken \<Rightarrow>
               if \<not> truthy accessToken
               then \<lparr> effects = [Start (uncacheTwitchAccessToken userId)], thrown = None \<rparr>
               else
                 (case addUser sdk userId accessToken of
                    Inl e \<Rightarrow> \<lparr> effects = [AddUser userId accessToken], thrown = Some e \<rparr>
                  | Inr done \<Rightarrow>
                      (case getUserById sdk userId of
                         Inl e \<Rightarrow>
                           \<lparr> effects = [AddUser userId accessToken, GetUserById userId],
                             thrown = Some e \<rparr>
                       | Inr None \<Rightarrow>
                           \<lparr> effects = [AddUser userId accessToken, GetUserById userId,
                                        ConsoleError (''Failed to load twitch user '' @ userId)],
                             thrown = None \<rparr>
                       | Inr (Some u) \<Rightarrow>
                           \<lparr> effects =
                               [AddUser userId accessToken, GetUserById userId,
                                ConsoleLog (''Loaded twitch user '' @ name u @ '' ('' @ userId @ '')'')]
                               @ (if name u = user (botConfig srv) then [CreateBot u] else []),
                             thrown = None \<rparr>))))"

fun loadEntries :: "Twitch \<Rightarrow> Server \<Rightarrow> cache \<Rightarrow> string list \<Rightarrow> Run" where
  "loadEntries sdk srv fs [] = \<lparr> effects = [], thrown = None \<rparr>"
| "loadEntries sdk srv fs (fileName # rest) =
     (let r = loadEntry sdk srv fs fileName in
      case thrown r of
        Some e \<Rightarrow> r
      | None \<Rightarrow>
          (let r' = loadEntries sdk srv fs rest
           in \<lparr> effects = effects r @ effects r', thrown = thrown r' \<rparr>))"

definition loadCachedTwitchAccessTokens :: "Twitch \<Rightarrow> Server \<Rightarrow> cache \<Rightarrow> Run" where
  "loadCachedTwitchAccessTokens sdk srv fs =
     (case fs_readdir fs of
        Inl e \<Rightarrow> \<lparr> effects = [], thrown = Some e \<rparr>
      | Inr fileNames \<Rightarrow> loadEntries sdk srv fs fileNames)"

text \<open>
  The start of the server as far as the cache goes: the tokens are loaded, and the removals that
  were started on the way are settled. (A removal is of the file of the user id read from the
  name; it meets a later read of the loop only when two names give the same user id.)
\<close>

definition startTurn :: "Twitch \<Rightarrow> Server \<Rightarrow> cache \<Rightarrow> cache \<times> Run" where
  "startTurn sdk srv fs =
     (let r = loadCachedTwitchAccessTokens sdk srv fs
      in (fold settle (startedOps (effects r)) fs, r))"

subsection \<open>Runs of the server\<close>

text \<open>
  The requests and the passing of time that reach the nonce registry, one after the other. Every
  callback comes with what the SDK does in its run.
\<close>

datatype event = AuthRequest "byte list" | AuthCallback Twitch Query | Elapse nat

fun step :: "event \<Rightarrow> Server \<Rightarrow> Server" where
  "step (AuthRequest randomBytes) srv = fst (routeRedirectTwitchAuth randomBytes srv)"
| "step (AuthCallback sdk q) srv = fst (routeTwitchAuthCallback sdk q srv)"
| "step (Elapse ms) srv = elapse ms srv"

fun run :: "event list \<Rightarrow> Server \<Rightarrow> Server" where
  "run [] srv = srv"
| "run (e # es) srv = run es (step e srv)"

text \<open>A callback passed the check of the handler when its answer is not \<open>400 Invalid request.\<close>\<close>

definition passedCheck :: "Run \<Rightarrow> bool" where
  "passedCheck r = (answer (effects r) \<noteq> Some invalidRequest)"

text \<open>How often a nonce was issued, and how often a callback that carried it passed the check.\<close>

fun issuedHere :: "string \<Rightarrow> event \<Rightarrow> nat" where
  "issuedHere st (AuthRequest randomBytes) = (if toHex randomBytes = st then 1 else 0)"
| "issuedHere st (AuthCallback sdk q) = 0"
| "issuedHere st (Elapse ms) = 0"

fun acceptedHere :: "string \<Rightarrow> event \<Rightarrow> Server \<Rightarrow> nat" where
  "acceptedHere st (AuthRequest randomBytes) srv = 0"
| "acceptedHere st (AuthCallback sdk q) srv =
     (if query_state q = Some st \<and> passedCheck (snd (routeTwitchAuthCallback sdk q srv))
      then 1 else 0)"
| "acceptedHere st (Elapse ms) srv = 0"

fun issued :: "string \<Rightarrow> event list \<Rightarrow> nat" where
  "issued st [] = 0"
| "issued st (e # es) = issuedHere st e + issued st es"

fun accepted :: "string \<Rightarrow> event list \<Rightarrow> Server \<Rightarrow> nat" where
  "accepted st [] srv = 0"
| "accepted st (e # es) srv = acceptedHere st e srv + accepted st es (step e srv)"

section \<open>Notions used in the statements\<close>

text \<open>
  The characters of a hexadecimal nonce; the check of line 213 as one predicate (its negation is
  the condition of the \<open>if\<close>); the timer that still stands for a pending nonce; the parameters a
  redirect is to carry; the order of two effects in a trace; the answer of a successful
  callback; the JSON values whose numbers are safe integers and whose objects have each key
  once; the characters that may follow a value inside JSON text; and the fuel that is enough
  for the parser.
\<close>

definition lowerHex :: "char \<Rightarrow> bool" where
  "lowerHex c = (let n = of_char c :: nat in (48 \<le> n \<and> n \<le> 57) \<or> (97 \<le> n \<and> n \<le> 102))"

definition checkPasses :: "Query \<Rightarrow> Server \<Rightarrow> bool" where
  "checkPasses q srv =
     (given (query_code q) \<and> given (query_state q) \<and>
      truthyProperty (getProperty (twitchAuthState srv) (paramText (query_state q))))"

definition pendingExpiry :: "string \<Rightarrow> nat \<Rightarrow> Server \<Rightarrow> bool" where
  "pendingExpiry st D srv =
     (twitchAuthState srv st = None \<or>
      (\<exists>d. d \<le> D \<and> clock srv < d \<and> (d, st) \<in> set (timeouts srv)))"

definition authorizeParams :: "ServerConfig \<Rightarrow> string \<Rightarrow> (string \<times> string) list" where
  "authorizeParams options st =
     [(''client_id'', clientId (twitch options)),
      (''redirect_uri'', fullyQualifiedHostName (newServer options) @ ''/twitch/auth-callback''),
      (''response_type'', ''code''),
      (''scope'', ''chat:read chat:edit channel:read:redemptions channel:manage:redemptions moderator:read:followers''),
      (''state'', st)]"

fun before :: "'a \<Rightarrow> 'a \<Rightarrow> 'a list \<Rightarrow> bool" where
  "before a b [] = False"
| "before a b (x # xs) =
     (if x = b then False else if x = a then b \<in> set xs else before a b xs)"

definition welcomeResponse :: "HelixUser \<Rightarrow> Response" where
  "welcomeResponse u = \<lparr> status = 200, location = None, body = ''welcome '' @ name u @ ''!'' \<rparr>"

fun safeJson :: "json \<Rightarrow> bool"
  and safeElems :: "json list \<Rightarrow> bool"
  and safeMembers :: "(string \<times> json) list \<Rightarrow> bool" where
  "safeJson JNull = True"
| "safeJson (JBool b) = True"
| "safeJson (JNum n) = (\<bar>n\<bar> \<le> int MAX_SAFE_INTEGER)"
| "safeJson (JStr s) = True"
| "safeJson (JArr vs) = safeElems vs"
| "safeJson (JObj ms) = safeMembers ms"
| "safeElems [] = True"
| "safeElems (v # vs) = (safeJson v \<and> safeElems vs)"
| "safeMembers [] = True"
| "safeMembers ((k, v) # ms) = (k \<notin> fst ` set ms \<and> safeJson v \<and> safeMembers ms)"

definition closing :: "string \<Rightarrow> bool" where
  "closing rest =
     (case rest of [] \<Rightarrow> True | c # cs \<Rightarrow> c = CHR '','' \<or> c = CHR '']'' \<or> c = CHR ''}'')"

definition fuelled :: "nat \<Rightarrow> bool" where
  "fuelled n =
     ((\<forall>cs. 2 * length cs < n \<longrightarrow>
         parseValue n cs \<noteq> Inl OutOfFuel \<and>
         (\<forall>v r. parseValue n cs = Inr (v, r) \<longrightarrow> length r < length cs)) \<and>
      (\<forall>acc cs. 2 * length cs + 1 < n \<longrightarrow>
         parseElems n acc cs \<noteq> Inl OutOfFuel \<and>
         (\<forall>v r. parseElems n acc cs = Inr (v, r) \<longrightarrow> length r < length cs)) \<and>
      (\<forall>acc cs. 2 * length cs + 1 < n \<longrightarrow>
         parseMembers n acc cs \<noteq> Inl OutOfFuel \<and>
         (\<forall>v r. parseMembers n acc cs = Inr (v, r) \<longrightarrow> length r < length cs)))"

section \<open>Example values\<close>

text \<open>
  A configuration without \<open>port\<close> and \<open>hostName\<close>, twenty random bytes, a token as the SDK
  returns it, an SDK whose calls succeed for the configured bot user, and variations of them.
\<close>

definition exampleConfig :: ServerConfig where
  "exampleConfig =
     \<lparr> twitch = \<lparr> clientId = ''abc123'', clientSecret = ''hush'' \<rparr>,
       bot = \<lparr> user = ''papakumo'', channel = ''papakumo'' \<rparr>,
       ServerConfig.port = None,
       ServerConfig.hostName = None \<rparr>"

definition exampleBytes :: "byte list" where
  "exampleBytes = [1, 2, 3, 4, 5, 6, 7, 8, 9, 10, 171, 205, 239, 0, 255, 16, 32, 48, 64, 80]"

definition exampleToken :: json where
  "exampleToken =
     JObj [(''accessToken'', JStr ''X''), (''refreshToken'', JStr ''R''),
           (''scope'', JArr [JStr ''chat:read'', JStr ''chat:edit'']),
           (''expiresIn'', JNum 14400), (''obtainmentTimestamp'', JNum 1700000000000)]"

definition exampleSdk :: Twitch where
  "exampleSdk =
     \<lparr> addUserForCode = (\<lambda>c. Inr ''4242''),
       getAccessTokenForUser = (\<lambda>u. Inr exampleToken),
       getUserById = (\<lambda>u. Inr (Some \<lparr> helixId = u, name = ''papakumo'' \<rparr>)),
       addUser = (\<lambda>u t. Inr ()) \<rparr>"

definition exampleQuery :: Query where
  "exampleQuery = \<lparr> query_code = Some ''abc'', query_state = Some (toHex exampleBytes) \<rparr>"

definition inheritedQuery :: Query where
  "inheritedQuery = \<lparr> query_code = Some ''abc'', query_state = Some ''constructor'' \<rparr>"

definition examplePending :: Server where
  "examplePending = fst (routeRedirectTwitchAuth exampleBytes (newServer exampleConfig))"

definition exampleUser :: HelixUser where
  "exampleUser = \<lparr> helixId = ''4242'', name = ''papakumo'' \<rparr>"

definition failingSdk :: Twitch where
  "failingSdk = exampleSdk \<lparr> addUserForCode := (\<lambda>c. Inl (Thrown ''Invalid authorization code'')) \<rparr>"

definition failingLookupSdk :: Twitch where
  "failingLookupSdk = exampleSdk \<lparr> getUserById := (\<lambda>u. Inl (Thrown ''Failed to fetch'')) \<rparr>"

definition nullUserSdk :: Twitch where
  "nullUserSdk = exampleSdk \<lparr> getUserById := (\<lambda>u. Inr None) \<rparr>"

definition corruptCache :: cache where
  "corruptCache =
     Folder [(''twitch.123.json'', ''{''), (''twitch.4242.json'', JSON_stringify exampleToken)]"

definition nullCache :: cache where
  "nullCache =
     Folder [(''twitch.123.json'', ''null''), (''twitch.4242.json'', JSON_stringify exampleToken)]"

section \<open>The nonce registry\<close>

subsection \<open>Issued nonces are hexadecimal and never name an inherited property\<close>

lemma hexDigit_lowerHex: "d < 16 \<Longrightarrow> lowerHex (hexDigit d)"
  by (auto simp: hexDigit_def lowerHex_def)

lemma byteHex_chars: "c \<in> set (byteHex b) \<Longrightarrow> lowerHex c"
proof -
  assume c: "c \<in> set (byteHex b)"
  have "unat b < 256" using unsigned_less [of b, where ?'a = nat] by simp
  then have "unat b div 16 < 16" by simp
  moreover have "unat b mod 16 < 16" by simp
  ultimately show ?thesis
    using c hexDigit_lowerHex by (auto simp: byteHex_def)
qed

lemma toHex_chars: "c \<in> set (toHex bs) \<Longrightarrow> lowerHex c"
  using byteHex_chars by (auto simp: toHex_def)

lemma length_toHex: "length (toHex bs) = 2 * length bs"
  unfolding toHex_def by (induction bs) (simp_all add: byteHex_def)

lemma objectPrototype_not_hex: "k \<in> set objectPrototype \<Longrightarrow> \<exists>c \<in> set k. \<not> lowerHex c"
  by (auto simp: objectPrototype_def lowerHex_def)

lemma toHex_not_inherited: "toHex bs \<notin> set objectPrototype"
  using objectPrototype_not_hex toHex_chars by blast

lemma toHex_given: "length rnd = 20 \<Longrightarrow> toHex rnd \<noteq> []"
  using length_toHex [of rnd] by auto

subsection \<open>The check of the callback\<close>

lemma callback_rejected:
  "\<not> checkPasses q srv \<Longrightarrow>
     routeTwitchAuthCallback sdk q srv = (srv, \<lparr> effects = [Send invalidRequest], thrown = None \<rparr>)"
  by (auto simp: routeTwitchAuthCallback_def checkPasses_def Let_def)

lemma callback_passed_server:
  "checkPasses q srv \<Longrightarrow>
     fst (routeTwitchAuthCallback sdk q srv) =
       srv \<lparr> twitchAuthState := deleteProperty (twitchAuthState srv) (paramText (query_state q)) \<rparr>"
  by (auto simp: routeTwitchAuthCallback_def checkPasses_def Let_def
      split: sum.splits option.splits)

lemma callback_passed_check:
  "checkPasses q srv \<Longrightarrow> passedCheck (snd (routeTwitchAuthCallback sdk q srv))"
  by (auto simp: routeTwitchAuthCallback_def checkPasses_def Let_def passedCheck_def
      invalidRequest_def serverError_def split: sum.splits option.splits)

lemma callback_passedCheck_iff:
  "passedCheck (snd (routeTwitchAuthCallback sdk q srv)) = checkPasses q srv"
proof (cases "checkPasses q srv")
  case True
  then show ?thesis by (simp add: callback_passed_check)
next
  case False
  then show ?thesis by (simp add: callback_rejected passedCheck_def)
qed

lemma checkPasses_own:
  "query_state q = Some st \<Longrightarrow> st \<notin> set objectPrototype \<Longrightarrow>
     checkPasses q srv = (given (query_code q) \<and> st \<noteq> [] \<and> twitchAuthState srv st \<noteq> None)"
  by (auto simp: checkPasses_def given_def paramText_def getProperty_def split: option.splits)

lemma callback_rejects_unknown_state:
  assumes "\<not> given (query_code q) \<or> \<not> given (query_state q) \<or>
     (twitchAuthState srv (paramText (query_state q)) = None \<and>
      paramText (query_state q) \<notin> set objectPrototype)"
  shows "routeTwitchAuthCallback sdk q srv =
     (srv, \<lparr> effects = [Send invalidRequest], thrown = None \<rparr>)"
  using assms by (intro callback_rejected) (auto simp: checkPasses_def getProperty_def)

lemma callback_passed_run:
  assumes "checkPasses q srv"
  shows "snd (routeTwitchAuthCallback sdk q srv) =
     (case addUserForCode sdk (paramText (query_code q)) of
        Inl e \<Rightarrow> \<lparr> effects = [AddUserForCode (paramText (query_code q))], thrown = Some e \<rparr>
      | Inr uid \<Rightarrow>
          (case getAccessTokenForUser sdk uid of
             Inl e \<Rightarrow> \<lparr> effects = [AddUserForCode (paramText (query_code q)),
                                     GetAccessTokenForUser uid], thrown = Some e \<rparr>
           | Inr tok \<Rightarrow>
               if \<not> truthy tok
               then \<lparr> effects = [AddUserForCode (paramText (query_code q)),
                                  GetAccessTokenForUser uid,
                                  Send (serverError ''Failed to get access token.'')],
                       thrown = None \<rparr>
               else
                 (case getUserById sdk uid of
                    Inl e \<Rightarrow> \<lparr> effects = [AddUserForCode (paramText (query_code q)),
                                            GetAccessTokenForUser uid, GetUserById uid],
                                thrown = Some e \<rparr>
                  | Inr None \<Rightarrow>
                      \<lparr> effects = [AddUserForCode (paramText (query_code q)),
                                   GetAccessTokenForUser uid, GetUserById uid,
                                   Send (serverError ''Failed to load user.'')],
                        thrown = None \<rparr>
                  | Inr (Some u) \<Rightarrow>
                      \<lparr> effects = [AddUserForCode (paramText (query_code q)),
                                   GetAccessTokenForUser uid, GetUserById uid,
                                   Start (cacheTwitchAccessToken uid tok), ConsoleLogUser u]
                                  @ (if name u = user (botConfig srv) then [CreateBot u] else [])
                                  @ [Send (welcomeResponse u)],
                        thrown = None \<rparr>)))"
  using assms
  by (auto simp: routeTwitchAuthCallback_def checkPasses_def Let_def welcomeResponse_def
      split: sum.splits option.splits)

lemma callback_frame:
  "clock (fst (routeTwitchAuthCallback sdk q srv)) = clock srv \<and>
   timeouts (fst (routeTwitchAuthCallback sdk q srv)) = timeouts srv"
  by (cases "checkPasses q srv") (simp_all add: callback_passed_server callback_rejected)

subsection \<open>Timers only remove\<close>

lemma timeoutCallback_absent:
  "twitchAuthState srv st = None \<Longrightarrow> twitchAuthState (timeoutCallback k srv) st = None"
  by (simp add: timeoutCallback_def deleteProperty_def)

lemma timeoutCallback_removes: "twitchAuthState (timeoutCallback st srv) st = None"
  by (auto simp: timeoutCallback_def deleteProperty_def getProperty_def split: option.splits)

lemma timeoutCallback_idle:
  "twitchAuthState srv st = None \<Longrightarrow> timeoutCallback st srv = srv"
  by (simp add: timeoutCallback_def deleteProperty_def fun_upd_idem)

lemma fold_timeoutCallback_absent:
  "twitchAuthState srv st = None \<Longrightarrow>
     twitchAuthState (fold (\<lambda>d. timeoutCallback (snd d)) ds srv) st = None"
  by (induction ds arbitrary: srv) (simp_all add: timeoutCallback_absent)

lemma fold_timeoutCallback_removes:
  "st \<in> snd ` set ds \<Longrightarrow>
     twitchAuthState (fold (\<lambda>d. timeoutCallback (snd d)) ds srv) st = None"
proof (induction ds arbitrary: srv)
  case Nil
  then show ?case by simp
next
  case (Cons d ds)
  show ?case
  proof (cases "snd d = st")
    case True
    then show ?thesis
      using fold_timeoutCallback_absent [of "timeoutCallback st srv" st ds]
      by (simp add: timeoutCallback_removes)
  next
    case False
    with Cons show ?thesis by auto
  qed
qed

lemma elapse_absent:
  "twitchAuthState srv st = None \<Longrightarrow> twitchAuthState (elapse ms srv) st = None"
  by (simp add: elapse_def Let_def fold_timeoutCallback_absent)

lemma clock_elapse: "clock (elapse ms srv) = clock srv + ms"
  by (simp add: elapse_def Let_def)

lemma timeouts_elapse:
  "timeouts (elapse ms srv) = filter (\<lambda>d. \<not> fst d \<le> clock srv + ms) (timeouts srv)"
  by (simp add: elapse_def Let_def)

lemma redirect_server:
  "fst (routeRedirectTwitchAuth rnd srv) =
     srv \<lparr> twitchAuthState := (twitchAuthState srv)(toHex rnd \<mapsto> clock srv + DEFAULT_TWITCH_AUTH_TIMEOUT),
           timeouts := timeouts srv @ [(clock srv + DEFAULT_TWITCH_AUTH_TIMEOUT, toHex rnd)] \<rparr>"
  by (simp add: routeRedirectTwitchAuth_def Let_def)

lemma redirect_registers:
  "twitchAuthState (fst (routeRedirectTwitchAuth rnd srv)) (toHex rnd) =
     Some (clock srv + DEFAULT_TWITCH_AUTH_TIMEOUT)"
  by (simp add: redirect_server)

lemma step_absent:
  "twitchAuthState srv st = None \<Longrightarrow> issuedHere st e = 0 \<Longrightarrow> twitchAuthState (step e srv) st = None"
proof (cases e)
  case (AuthRequest rnd)
  assume "twitchAuthState srv st = None" "issuedHere st e = 0"
  with AuthRequest show ?thesis by (auto simp: redirect_server split: if_splits)
next
  case (AuthCallback sdk q)
  assume a: "twitchAuthState srv st = None"
  show ?thesis
  proof (cases "checkPasses q srv")
    case True
    with a AuthCallback show ?thesis by (simp add: callback_passed_server deleteProperty_def)
  next
    case False
    with a AuthCallback show ?thesis by (simp add: callback_rejected)
  qed
next
  case (Elapse ms)
  assume "twitchAuthState srv st = None"
  with Elapse show ?thesis by (simp add: elapse_absent)
qed

lemma run_absent:
  "twitchAuthState srv st = None \<Longrightarrow> issued st es = 0 \<Longrightarrow> twitchAuthState (run es srv) st = None"
  by (induction es arbitrary: srv) (simp_all add: step_absent)

subsection \<open>A nonce validates at most once\<close>

lemma accepted_bound:
  "st \<notin> set objectPrototype \<Longrightarrow>
     accepted st es srv \<le> issued st es + (if twitchAuthState srv st = None then 0 else 1)"
proof (induction es arbitrary: srv)
  case Nil
  then show ?case by simp
next
  case (Cons e es)
  note IH = Cons.IH [OF Cons.prems, of "step e srv"]
  show ?case
  proof (cases e)
    case (AuthRequest rnd)
    then show ?thesis using IH by (auto simp: redirect_server split: if_splits)
  next
    case (AuthCallback sdk q)
    show ?thesis
    proof (cases "checkPasses q srv")
      case True
      note pass = this
      show ?thesis
      proof (cases "query_state q = Some st")
        case True
        with pass Cons.prems have own: "twitchAuthState srv st \<noteq> None"
          by (simp add: checkPasses_own)
        from True pass have "twitchAuthState (step e srv) st = None"
          using AuthCallback by (simp add: callback_passed_server deleteProperty_def paramText_def)
        with IH own True pass AuthCallback show ?thesis
          by (auto simp: callback_passedCheck_iff)
      next
        case False
        have "twitchAuthState srv st = None \<Longrightarrow> twitchAuthState (step e srv) st = None"
          using AuthCallback pass by (simp add: callback_passed_server deleteProperty_def)
        with IH False AuthCallback show ?thesis
          by (auto split: if_splits)
      qed
    next
      case False
      then have "acceptedHere st e srv = 0"
        using AuthCallback by (simp add: callback_passedCheck_iff)
      moreover from False have "step e srv = srv"
        using AuthCallback by (simp add: callback_rejected)
      ultimately show ?thesis using IH
        by simp
    qed
  next
    case (Elapse ms)
    have "twitchAuthState srv st = None \<Longrightarrow> twitchAuthState (step e srv) st = None"
      using Elapse by (simp add: elapse_absent)
    with IH Elapse show ?thesis by (auto split: if_splits)
  qed
qed

lemma length_exampleBytes: "length exampleBytes = 20"
  by (simp add: exampleBytes_def)

text \<open>
  Claim C1. For every nonce issued by the auth-redirect handler (a key added to
  \<open>twitchAuthState\<close>), at most one later callback validation of that nonce succeeds. The handler
  adds the key; the first callback that carries the nonce (with a code) passes the check and the
  key is gone afterwards; after any further requests and any passing of time in which the same
  nonce is not issued again, a callback that carries it gets \<open>400 Invalid request.\<close> and
  changes nothing; and in every run from a state without the key, the callbacks that pass the
  check with this nonce are no more than the times it was issued.
\<close>

theorem nonce_validates_at_most_once:
  assumes "length randomBytes = 20"
    and "given (query_code q)"
    and "query_state q = Some (toHex randomBytes)"
    and "query_state q' = Some (toHex randomBytes)"
    and "issued (toHex randomBytes) es = 0"
    and "twitchAuthState srv0 (toHex randomBytes) = None"
  shows "twitchAuthState (fst (routeRedirectTwitchAuth randomBytes srv)) (toHex randomBytes) \<noteq> None
    \<and> passedCheck (snd (routeTwitchAuthCallback sdk q (fst (routeRedirectTwitchAuth randomBytes srv))))
    \<and> twitchAuthState
        (fst (routeTwitchAuthCallback sdk q (fst (routeRedirectTwitchAuth randomBytes srv))))
        (toHex randomBytes) = None
    \<and> routeTwitchAuthCallback sdk' q'
        (run es (fst (routeTwitchAuthCallback sdk q (fst (routeRedirectTwitchAuth randomBytes srv))))) =
      (run es (fst (routeTwitchAuthCallback sdk q (fst (routeRedirectTwitchAuth randomBytes srv)))),
       \<lparr> effects = [Send invalidRequest], thrown = None \<rparr>)
    \<and> accepted (toHex randomBytes) es' srv0 \<le> issued (toHex randomBytes) es'"
proof -
  let ?st = "toHex randomBytes"
  let ?srv1 = "fst (routeRedirectTwitchAuth randomBytes srv)"
  let ?srv2 = "fst (routeTwitchAuthCallback sdk q ?srv1)"
  have fresh: "?st \<notin> set objectPrototype" by (rule toHex_not_inherited)
  have own: "twitchAuthState ?srv1 ?st \<noteq> None" by (simp add: redirect_registers)
  have pass: "checkPasses q ?srv1"
    using assms(1-3) own fresh by (simp add: checkPasses_own toHex_given)
  have gone: "twitchAuthState ?srv2 ?st = None"
    using pass assms(3) by (simp add: callback_passed_server deleteProperty_def paramText_def)
  have later: "twitchAuthState (run es ?srv2) ?st = None"
    using gone assms(5) by (rule run_absent)
  have "\<not> checkPasses q' (run es ?srv2)"
    using later fresh assms(4) by (simp add: checkPasses_own)
  then have replay: "routeTwitchAuthCallback sdk' q' (run es ?srv2) =
      (run es ?srv2, \<lparr> effects = [Send invalidRequest], thrown = None \<rparr>)"
    by (rule callback_rejected)
  have count: "accepted ?st es' srv0 \<le> issued ?st es'"
    using accepted_bound [OF fresh, of es' srv0] assms(6) by simp
  from own pass gone replay count show ?thesis
    by (simp add: callback_passedCheck_iff)
qed

text \<open>The statement at the example values: a replay after a second and a repeated callback.\<close>

theorem nonce_validates_at_most_once_witness:
  "length exampleBytes = 20
   \<and> given (query_code exampleQuery)
   \<and> query_state exampleQuery = Some (toHex exampleBytes)
   \<and> issued (toHex exampleBytes) [Elapse 1000, AuthCallback exampleSdk exampleQuery] = 0
   \<and> twitchAuthState (newServer exampleConfig) (toHex exampleBytes) = None
   \<and> passedCheck (snd (routeTwitchAuthCallback exampleSdk exampleQuery
        (fst (routeRedirectTwitchAuth exampleBytes (newServer exampleConfig)))))
   \<and> snd (routeTwitchAuthCallback exampleSdk exampleQuery
        (run [Elapse 1000, AuthCallback exampleSdk exampleQuery]
          (fst (routeTwitchAuthCallback exampleSdk exampleQuery
            (fst (routeRedirectTwitchAuth exampleBytes (newServer exampleConfig))))))) =
      \<lparr> effects = [Send invalidRequest], thrown = None \<rparr>
   \<and> accepted (toHex exampleBytes)
        [AuthRequest exampleBytes, AuthCallback exampleSdk exampleQuery,
         AuthCallback exampleSdk exampleQuery] (newServer exampleConfig) \<le> 1"
proof -
  have h1: "length exampleBytes = 20" by (rule length_exampleBytes)
  have h2: "given (query_code exampleQuery)" by (simp add: exampleQuery_def given_def)
  have h3: "query_state exampleQuery = Some (toHex exampleBytes)" by (simp add: exampleQuery_def)
  have h5: "issued (toHex exampleBytes) [Elapse 1000, AuthCallback exampleSdk exampleQuery] = 0"
    by simp
  have h6: "twitchAuthState (newServer exampleConfig) (toHex exampleBytes) = None"
    by (simp add: newServer_def Let_def)
  have n: "issued (toHex exampleBytes)
        [AuthRequest exampleBytes, AuthCallback exampleSdk exampleQuery,
         AuthCallback exampleSdk exampleQuery] = 1"
    by simp
  from nonce_validates_at_most_once [OF h1 h2 h3 h3 h5 h6,
      of "newServer exampleConfig" exampleSdk exampleSdk
        "[AuthRequest exampleBytes, AuthCallback exampleSdk exampleQuery,
          AuthCallback exampleSdk exampleQuery]"]
  show ?thesis using h1 h2 h3 h5 h6 n
    by (simp del: accepted.simps issued.simps run.simps)
qed

subsection \<open>Expiry\<close>

lemma pendingExpiry_step:
  assumes "pendingExpiry st D srv" and "issuedHere st e = 0"
  shows "pendingExpiry st D (step e srv)"
proof (cases "twitchAuthState srv st = None")
  case True
  then show ?thesis using assms(2) by (simp add: pendingExpiry_def step_absent)
next
  case False
  with assms(1) obtain d where d: "d \<le> D" "clock srv < d" "(d, st) \<in> set (timeouts srv)"
    by (auto simp: pendingExpiry_def)
  show ?thesis
  proof (cases e)
    case (AuthRequest rnd)
    with d show ?thesis
      by (auto simp: pendingExpiry_def redirect_server)
  next
    case (AuthCallback sdk q)
    with d show ?thesis
      using callback_frame [of sdk q srv] by (auto simp: pendingExpiry_def)
  next
    case (Elapse ms)
    show ?thesis
    proof (cases "d \<le> clock srv + ms")
      case True
      with d have "st \<in> snd ` set (filter (\<lambda>d. fst d \<le> clock srv + ms) (timeouts srv))"
        by force
      then have "twitchAuthState (elapse ms srv) st = None"
        by (simp add: elapse_def Let_def fold_timeoutCallback_removes)
      with Elapse show ?thesis by (simp add: pendingExpiry_def)
    next
      case False
      with d Elapse show ?thesis
        by (auto simp: pendingExpiry_def clock_elapse timeouts_elapse)
    qed
  qed
qed

lemma pendingExpiry_run:
  "pendingExpiry st D srv \<Longrightarrow> issued st es = 0 \<Longrightarrow> pendingExpiry st D (run es srv)"
  by (induction es arbitrary: srv) (simp_all add: pendingExpiry_step)

lemma pendingExpiry_redirect:
  "pendingExpiry (toHex rnd) (clock srv + DEFAULT_TWITCH_AUTH_TIMEOUT)
     (fst (routeRedirectTwitchAuth rnd srv))"
  by (auto simp: pendingExpiry_def redirect_server DEFAULT_TWITCH_AUTH_TIMEOUT_def)

text \<open>
  Claim C7. A nonce not consumed within the fixed timeout (\<open>DEFAULT_TWITCH_AUTH_TIMEOUT\<close>, five
  minutes) is removed by its scheduled expiry and becomes unconsumable: once the clock has
  passed the due time of its timer, whatever requests came in between (the same nonce not being
  issued again), the key is gone and a callback presenting that state is rejected with
  \<open>400\<close>; and the expiry callback on a registry that no longer holds the nonce leaves the server
  as it is.
\<close>

theorem unconsumed_nonce_expires:
  assumes "issued (toHex randomBytes) es = 0"
    and "clock srv + DEFAULT_TWITCH_AUTH_TIMEOUT
           \<le> clock (run es (fst (routeRedirectTwitchAuth randomBytes srv)))"
    and "query_state q = Some (toHex randomBytes)"
    and "twitchAuthState consumed (toHex randomBytes) = None"
  shows "DEFAULT_TWITCH_AUTH_TIMEOUT = 5 * 60 * 1000
    \<and> twitchAuthState (run es (fst (routeRedirectTwitchAuth randomBytes srv))) (toHex randomBytes) = None
    \<and> routeTwitchAuthCallback sdk q (run es (fst (routeRedirectTwitchAuth randomBytes srv))) =
        (run es (fst (routeRedirectTwitchAuth randomBytes srv)),
         \<lparr> effects = [Send invalidRequest], thrown = None \<rparr>)
    \<and> timeoutCallback (toHex randomBytes) consumed = consumed"
proof -
  let ?st = "toHex randomBytes"
  let ?srv' = "run es (fst (routeRedirectTwitchAuth randomBytes srv))"
  have "pendingExpiry ?st (clock srv + DEFAULT_TWITCH_AUTH_TIMEOUT) ?srv'"
    using pendingExpiry_redirect assms(1) by (rule pendingExpiry_run)
  with assms(2) have gone: "twitchAuthState ?srv' ?st = None"
    by (auto simp: pendingExpiry_def)
  have "\<not> checkPasses q ?srv'"
    using gone assms(3) toHex_not_inherited [of randomBytes] by (simp add: checkPasses_own)
  then have "routeTwitchAuthCallback sdk q ?srv' =
      (?srv', \<lparr> effects = [Send invalidRequest], thrown = None \<rparr>)"
    by (rule callback_rejected)
  with gone assms(4) show ?thesis
    by (simp add: timeoutCallback_idle DEFAULT_TWITCH_AUTH_TIMEOUT_def)
qed

text \<open>The statement at the example values: five minutes pass after the redirect.\<close>

theorem unconsumed_nonce_expires_witness:
  "issued (toHex exampleBytes) [Elapse 300000] = 0
   \<and> clock (newServer exampleConfig) + DEFAULT_TWITCH_AUTH_TIMEOUT
        \<le> clock (run [Elapse 300000] (fst (routeRedirectTwitchAuth exampleBytes (newServer exampleConfig))))
   \<and> query_state exampleQuery = Some (toHex exampleBytes)
   \<and> twitchAuthState (newServer exampleConfig) (toHex exampleBytes) = None
   \<and> twitchAuthState
        (run [Elapse 300000] (fst (routeRedirectTwitchAuth exampleBytes (newServer exampleConfig))))
        (toHex exampleBytes) = None
   \<and> snd (routeTwitchAuthCallback exampleSdk exampleQuery
        (run [Elapse 300000] (fst (routeRedirectTwitchAuth exampleBytes (newServer exampleConfig))))) =
      \<lparr> effects = [Send invalidRequest], thrown = None \<rparr>
   \<and> timeoutCallback (toHex exampleBytes) (newServer exampleConfig) = newServer exampleConfig"
proof -
  have h1: "issued (toHex exampleBytes) [Elapse 300000] = 0" by simp
  have h2: "clock (newServer exampleConfig) + DEFAULT_TWITCH_AUTH_TIMEOUT
        \<le> clock (run [Elapse 300000] (fst (routeRedirectTwitchAuth exampleBytes (newServer exampleConfig))))"
    by (simp add: clock_elapse redirect_server newServer_def Let_def DEFAULT_TWITCH_AUTH_TIMEOUT_def)
  have h3: "query_state exampleQuery = Some (toHex exampleBytes)" by (simp add: exampleQuery_def)
  have h4: "twitchAuthState (newServer exampleConfig) (toHex exampleBytes) = None"
    by (simp add: newServer_def Let_def)
  note t = unconsumed_nonce_expires [OF h1 h2 h3 h4, of exampleSdk]
  note a = t [THEN conjunct2, THEN conjunct1]
  note b = t [THEN conjunct2, THEN conjunct2, THEN conjunct1]
  note c = t [THEN conjunct2, THEN conjunct2, THEN conjunct2]
  have b': "snd (routeTwitchAuthCallback exampleSdk exampleQuery
        (run [Elapse 300000] (fst (routeRedirectTwitchAuth exampleBytes (newServer exampleConfig))))) =
      \<lparr> effects = [Send invalidRequest], thrown = None \<rparr>"
    by (simp only: b snd_conv)
  from h1 h2 h3 h4 a b' c show ?thesis by blast
qed

section \<open>The redirect\<close>

lemma hexValue_HexDigit: "d < 16 \<Longrightarrow> hexValue (HexDigit d) = Some d"
  by (auto simp: hexValue_def HexDigit_def Let_def)

lemma formSafe_not_special:
  "formSafe c \<Longrightarrow> c \<noteq> CHR ''+'' \<and> c \<noteq> CHR ''%'' \<and> c \<noteq> CHR ''&'' \<and> c \<noteq> CHR ''=''"
  by (auto simp: formSafe_def Let_def)

lemma of_char_div_16: "(of_char c :: nat) div 16 < 16"
proof -
  have "(of_char c :: nat) < 256" by simp
  then show ?thesis by (simp only: less_mult_imp_div_less [of _ 16 16, simplified])
qed

lemma formDecode_formByte: "formDecode (formByte c @ t) = c # formDecode t"
proof (cases "c = CHR '' ''")
  case True
  then show ?thesis by (simp add: formByte_def)
next
  case False
  note nsp = this
  show ?thesis
  proof (cases "formSafe c")
    case True
    with nsp formSafe_not_special [of c] show ?thesis by (simp add: formByte_def)
  next
    case False
    have "char_of ((of_char c :: nat) div 16 * 16 + of_char c mod 16) = c"
      by simp
    with nsp False show ?thesis
      by (simp add: formByte_def hexValue_HexDigit of_char_div_16)
  qed
qed

lemma formDecode_formEncode: "formDecode (formEncode s @ t) = s @ formDecode t"
  by (induction s) (simp_all add: formEncode_def formDecode_formByte)

lemma formDecode_formEncode': "formDecode (formEncode s) = s"
  using formDecode_formEncode [of s "[]"] by simp

lemma HexDigit_plain: "d < 16 \<Longrightarrow> HexDigit d \<noteq> CHR ''&'' \<and> HexDigit d \<noteq> CHR ''=''"
  by (auto simp: HexDigit_def char_of_eq_iff take_bit_eq_mod)

lemma formByte_plain: "x \<in> set (formByte c) \<Longrightarrow> x \<noteq> CHR ''&'' \<and> x \<noteq> CHR ''=''"
  using formSafe_not_special [of c] HexDigit_plain [OF of_char_div_16 [of c]]
    HexDigit_plain [of "of_char c mod 16"]
  by (auto simp: formByte_def split: if_splits)

lemma formEncode_plain: "x \<in> set (formEncode s) \<Longrightarrow> x \<noteq> CHR ''&'' \<and> x \<noteq> CHR ''=''"
  using formByte_plain by (auto simp: formEncode_def)

lemma splitOn_plain: "sep \<notin> set x \<Longrightarrow> splitOn sep x = [x]"
  by (induction x) auto

lemma splitOn_append: "sep \<notin> set x \<Longrightarrow> splitOn sep (x @ sep # rest) = x # splitOn sep rest"
  by (induction x) auto

lemma parsePair_formPair: "parsePair (formPair (k, v)) = (k, v)"
proof -
  have "takeWhile (\<lambda>c. c \<noteq> CHR ''='') (formEncode k @ CHR ''='' # formEncode v) = formEncode k"
    using formEncode_plain [of _ k] by (simp add: takeWhile_append2 takeWhile_eq_all_conv)
  then show ?thesis
    by (simp add: parsePair_def formPair_def Let_def formDecode_formEncode')
qed

lemma formPair_plain: "CHR ''&'' \<notin> set (formPair p)"
  using formEncode_plain [of "CHR ''&''"] by (auto simp: formPair_def)

lemma formPair_nonempty: "formPair p \<noteq> []"
  by (simp add: formPair_def)

lemma parseQuery_searchParams: "parseQuery (searchParamsToString ps) = ps"
proof (induction ps rule: induct_list012)
  case 1
  then show ?case by (simp add: parseQuery_def searchParamsToString_def)
next
  case (2 p)
  then show ?case
    by (cases p)
      (simp add: parseQuery_def searchParamsToString_def splitOn_plain formPair_plain
        formPair_nonempty parsePair_formPair)
next
  case (3 p p' ps)
  have "splitOn CHR ''&'' (formPair p @ CHR ''&'' # joinWith ''&'' (map formPair (p' # ps))) =
      formPair p # splitOn CHR ''&'' (joinWith ''&'' (map formPair (p' # ps)))"
    by (rule splitOn_append) (rule formPair_plain)
  with 3 show ?case
    by (cases p)
      (simp add: parseQuery_def searchParamsToString_def formPair_nonempty parsePair_formPair)
qed

lemma lowerHex_formSafe: "lowerHex c \<Longrightarrow> formSafe c \<and> c \<noteq> CHR '' ''"
  by (auto simp: lowerHex_def formSafe_def Let_def)

lemma formEncode_safe: "\<forall>c \<in> set s. formSafe c \<and> c \<noteq> CHR '' '' \<Longrightarrow> formEncode s = s"
  by (induction s) (simp_all add: formEncode_def formByte_def)

lemma formEncode_toHex: "formEncode (toHex bs) = toHex bs"
  using toHex_chars lowerHex_formSafe by (intro formEncode_safe) blast

lemma step_settings:
  "twitchScopes (step e srv) = twitchScopes srv \<and> twitchConfig (step e srv) = twitchConfig srv \<and>
   fullyQualifiedHostName (step e srv) = fullyQualifiedHostName srv \<and>
   botConfig (step e srv) = botConfig srv"
proof (cases e)
  case (AuthRequest rnd)
  then show ?thesis by (simp add: redirect_server)
next
  case (AuthCallback sdk q)
  then show ?thesis
    by (cases "checkPasses q srv") (simp_all add: callback_passed_server callback_rejected)
next
  case (Elapse ms)
  have "twitchScopes (fold (\<lambda>d. timeoutCallback (snd d)) ds s) = twitchScopes s \<and>
        twitchConfig (fold (\<lambda>d. timeoutCallback (snd d)) ds s) = twitchConfig s \<and>
        fullyQualifiedHostName (fold (\<lambda>d. timeoutCallback (snd d)) ds s) = fullyQualifiedHostName s \<and>
        botConfig (fold (\<lambda>d. timeoutCallback (snd d)) ds s) = botConfig s" for ds s
    by (induction ds arbitrary: s) (simp_all add: timeoutCallback_def)
  with Elapse show ?thesis by (simp add: elapse_def Let_def)
qed

lemma run_settings:
  "twitchScopes (run es srv) = twitchScopes srv \<and> twitchConfig (run es srv) = twitchConfig srv \<and>
   fullyQualifiedHostName (run es srv) = fullyQualifiedHostName srv \<and>
   botConfig (run es srv) = botConfig srv"
  by (induction es arbitrary: srv) (simp_all add: step_settings)

text \<open>
  Claim C9. Every \<open>GET /twitch/auth\<close> request, in any state the server reaches from its
  construction, responds \<open>302\<close> with a \<open>Location\<close> that is the authorization endpoint followed by
  a query string; that query string reads back as the configured client id, the callback address
  (\<open>fullyQualifiedHostName\<close> followed by \<open>/twitch/auth-callback\<close>), the response type, the fixed
  scope list and a \<open>state\<close> equal to the freshly issued nonce (which stands in the URL as it is);
  and the only change to the server is the new key with its timer.
\<close>

theorem auth_request_redirects:
  "snd (routeRedirectTwitchAuth randomBytes (run es (newServer options))) =
     \<lparr> status = 302,
       location = Some (''https://id.twitch.tv/oauth2/authorize?'' @
                        searchParamsToString (authorizeParams options (toHex randomBytes))),
       body = [] \<rparr>
   \<and> parseQuery (searchParamsToString (authorizeParams options (toHex randomBytes))) =
       authorizeParams options (toHex randomBytes)
   \<and> formEncode (toHex randomBytes) = toHex randomBytes
   \<and> fst (routeRedirectTwitchAuth randomBytes (run es (newServer options))) =
       (run es (newServer options))
         \<lparr> twitchAuthState := (twitchAuthState (run es (newServer options)))
              (toHex randomBytes \<mapsto> clock (run es (newServer options)) + DEFAULT_TWITCH_AUTH_TIMEOUT),
           timeouts := timeouts (run es (newServer options)) @
              [(clock (run es (newServer options)) + DEFAULT_TWITCH_AUTH_TIMEOUT, toHex randomBytes)] \<rparr>"
proof -
  let ?srv = "run es (newServer options)"
  have s: "twitchScopes ?srv = twitchScopes (newServer options)"
    "twitchConfig ?srv = twitchConfig (newServer options)"
    "fullyQualifiedHostName ?srv = fullyQualifiedHostName (newServer options)"
    using run_settings [of es "newServer options"] by simp_all
  have n: "twitchScopes (newServer options) =
      [''chat:read'', ''chat:edit'', ''channel:read:redemptions'',
       ''channel:manage:redemptions'', ''moderator:read:followers'']"
    "twitchConfig (newServer options) = twitch options"
    by (simp_all add: newServer_def Let_def)
  have "snd (routeRedirectTwitchAuth randomBytes ?srv) =
     \<lparr> status = 302,
       location = Some (''https://id.twitch.tv/oauth2/authorize?'' @
                        searchParamsToString (authorizeParams options (toHex randomBytes))),
       body = [] \<rparr>"
    by (simp add: routeRedirectTwitchAuth_def Let_def urlToString_def authorizeParams_def s n)
  then show ?thesis
    by (simp add: parseQuery_searchParams formEncode_toHex redirect_server)
qed

section \<open>The callback\<close>

text \<open>
  Claim C6. A callback whose code or state is absent, or whose state is not a pending nonce, is
  to get \<open>400\<close> without any call of the SDK. The code does so for every state that is not the
  name of a property of \<open>Object.prototype\<close> (lemma \<open>callback_rejects_unknown_state\<close>). For
  \<open>state=constructor\<close>, which was never issued, the property read finds the inherited function,
  the check passes, and the handler exchanges the code, starts the cache write, attaches the
  bot and answers \<open>200\<close>: the evaluation below.
\<close>

theorem inherited_state_passes_check:
  "twitchAuthState (newServer exampleConfig) ''constructor'' = None
   \<and> routeTwitchAuthCallback exampleSdk inheritedQuery (newServer exampleConfig) =
      (newServer exampleConfig,
       \<lparr> effects = [AddUserForCode ''abc'', GetAccessTokenForUser ''4242'', GetUserById ''4242'',
                    Start (cacheTwitchAccessToken ''4242'' exampleToken),
                    ConsoleLogUser exampleUser, CreateBot exampleUser, Send (welcomeResponse exampleUser)],
         thrown = None \<rparr>)"
proof -
  have none: "twitchAuthState (newServer exampleConfig) ''constructor'' = None"
    by (simp add: newServer_def Let_def)
  have pass: "checkPasses inheritedQuery (newServer exampleConfig)"
    by (simp add: checkPasses_def inheritedQuery_def given_def paramText_def getProperty_def
        none objectPrototype_def)
  have tok: "truthy exampleToken" by (simp add: exampleToken_def)
  have same: "fst (routeTwitchAuthCallback exampleSdk inheritedQuery (newServer exampleConfig)) =
      newServer exampleConfig"
  proof -
    have k: "paramText (query_state inheritedQuery) = ''constructor''"
      by (simp add: inheritedQuery_def paramText_def)
    show ?thesis
      unfolding callback_passed_server [OF pass] k using none
      by (simp add: deleteProperty_def fun_upd_idem)
  qed
  have bot: "botConfig (newServer exampleConfig) = \<lparr> user = ''papakumo'', channel = ''papakumo'' \<rparr>"
    by (simp add: newServer_def Let_def exampleConfig_def)
  have "snd (routeTwitchAuthCallback exampleSdk inheritedQuery (newServer exampleConfig)) =
       \<lparr> effects = [AddUserForCode ''abc'', GetAccessTokenForUser ''4242'', GetUserById ''4242'',
                    Start (cacheTwitchAccessToken ''4242'' exampleToken),
                    ConsoleLogUser exampleUser, CreateBot exampleUser, Send (welcomeResponse exampleUser)],
         thrown = None \<rparr>"
  proof -
    have k: "paramText (query_code inheritedQuery) = ''abc''"
      by (simp add: inheritedQuery_def paramText_def)
    show ?thesis
      unfolding callback_passed_run [OF pass] k
      by (simp add: exampleSdk_def tok exampleUser_def bot)
  qed
  with same none show ?thesis by (simp add: prod_eq_iff)
qed

text \<open>What the evaluation shows: the exchange was called and the answer is the welcome.\<close>

theorem inherited_state_passes_check_witness:
  "AddUserForCode ''abc'' \<in> set (effects (snd
     (routeTwitchAuthCallback exampleSdk inheritedQuery (newServer exampleConfig))))
   \<and> answer (effects (snd
     (routeTwitchAuthCallback exampleSdk inheritedQuery (newServer exampleConfig)))) =
     Some (welcomeResponse exampleUser)"
  using inherited_state_passes_check by simp

lemma callback_downstream_outcomes:
  assumes "checkPasses q srv"
  shows "(addUserForCode sdk (paramText (query_code q)) = Inl e \<longrightarrow>
            answer (effects (snd (routeTwitchAuthCallback sdk q srv))) = None \<and>
            thrown (snd (routeTwitchAuthCallback sdk q srv)) = Some e)
    \<and> (addUserForCode sdk (paramText (query_code q)) = Inr uid \<and>
       getAccessTokenForUser sdk uid = Inl e \<longrightarrow>
            answer (effects (snd (routeTwitchAuthCallback sdk q srv))) = None \<and>
            thrown (snd (routeTwitchAuthCallback sdk q srv)) = Some e)
    \<and> (addUserForCode sdk (paramText (query_code q)) = Inr uid \<and>
       getAccessTokenForUser sdk uid = Inr tok \<and> \<not> truthy tok \<longrightarrow>
            answer (effects (snd (routeTwitchAuthCallback sdk q srv))) =
              Some \<lparr> status = 500, location = None, body = ''Failed to get access token.'' \<rparr> \<and>
            thrown (snd (routeTwitchAuthCallback sdk q srv)) = None)
    \<and> (addUserForCode sdk (paramText (query_code q)) = Inr uid \<and>
       getAccessTokenForUser sdk uid = Inr tok \<and> truthy tok \<and> getUserById sdk uid = Inl e \<longrightarrow>
            answer (effects (snd (routeTwitchAuthCallback sdk q srv))) = None \<and>
            thrown (snd (routeTwitchAuthCallback sdk q srv)) = Some e)
    \<and> (addUserForCode sdk (paramText (query_code q)) = Inr uid \<and>
       getAccessTokenForUser sdk uid = Inr tok \<and> truthy tok \<and> getUserById sdk uid = Inr None \<longrightarrow>
            answer (effects (snd (routeTwitchAuthCallback sdk q srv))) =
              Some \<lparr> status = 500, location = None, body = ''Failed to load user.'' \<rparr> \<and>
            thrown (snd (routeTwitchAuthCallback sdk q srv)) = None)"
  by (simp add: callback_passed_run [OF assms] serverError_def)

lemma examplePending_passes: "checkPasses exampleQuery examplePending"
  using toHex_not_inherited [of exampleBytes] toHex_given [OF length_exampleBytes]
  by (simp add: checkPasses_own [of _ "toHex exampleBytes"] exampleQuery_def examplePending_def
      redirect_registers given_def)

text \<open>
  Claim C3. For every callback in which the exchange of the code fails (the call throws) or the
  user lookup fails, the handler is to respond \<open>500\<close> with a plain-text error. The code does so
  when the SDK returns \<open>null\<close> for the token or for the user (lines 229 to 238, lemma
  \<open>callback_downstream_outcomes\<close>). When a call of the SDK throws, nothing catches it: the
  handler sends no answer and its promise rejects. The evaluation, for a callback with a pending
  nonce: the exchange throws, then the user lookup throws, and in both runs no answer is sent;
  beside them the run in which the lookup returns \<open>null\<close>, which is answered with \<open>500\<close>.
\<close>

theorem downstream_throw_leaves_request_unanswered:
  "checkPasses exampleQuery examplePending
   \<and> addUserForCode failingSdk (paramText (query_code exampleQuery)) =
       Inl (Thrown ''Invalid authorization code'')
   \<and> answer (effects (snd (routeTwitchAuthCallback failingSdk exampleQuery examplePending))) = None
   \<and> thrown (snd (routeTwitchAuthCallback failingSdk exampleQuery examplePending)) =
       Some (Thrown ''Invalid authorization code'')
   \<and> getUserById failingLookupSdk ''4242'' = Inl (Thrown ''Failed to fetch'')
   \<and> snd (routeTwitchAuthCallback failingLookupSdk exampleQuery examplePending) =
       \<lparr> effects = [AddUserForCode ''abc'', GetAccessTokenForUser ''4242'', GetUserById ''4242''],
         thrown = Some (Thrown ''Failed to fetch'') \<rparr>
   \<and> answer (effects (snd (routeTwitchAuthCallback failingLookupSdk exampleQuery examplePending))) =
       None
   \<and> getUserById nullUserSdk ''4242'' = Inr None
   \<and> snd (routeTwitchAuthCallback nullUserSdk exampleQuery examplePending) =
       \<lparr> effects = [AddUserForCode ''abc'', GetAccessTokenForUser ''4242'', GetUserById ''4242'',
                    Send (serverError ''Failed to load user.'')],
         thrown = None \<rparr>"
proof -
  have k: "paramText (query_code exampleQuery) = ''abc''"
    by (simp add: exampleQuery_def paramText_def)
  have tok: "truthy exampleToken" by (simp add: exampleToken_def)
  have a: "snd (routeTwitchAuthCallback failingSdk exampleQuery examplePending) =
      \<lparr> effects = [AddUserForCode ''abc''], thrown = Some (Thrown ''Invalid authorization code'') \<rparr>"
    unfolding callback_passed_run [OF examplePending_passes] k
    by (simp add: failingSdk_def)
  have b: "snd (routeTwitchAuthCallback failingLookupSdk exampleQuery examplePending) =
       \<lparr> effects = [AddUserForCode ''abc'', GetAccessTokenForUser ''4242'', GetUserById ''4242''],
         thrown = Some (Thrown ''Failed to fetch'') \<rparr>"
    unfolding callback_passed_run [OF examplePending_passes] k
    by (simp add: failingLookupSdk_def exampleSdk_def tok)
  have c: "snd (routeTwitchAuthCallback nullUserSdk exampleQuery examplePending) =
       \<lparr> effects = [AddUserForCode ''abc'', GetAccessTokenForUser ''4242'', GetUserById ''4242'',
                    Send (serverError ''Failed to load user.'')],
         thrown = None \<rparr>"
    unfolding callback_passed_run [OF examplePending_passes] k
    by (simp add: nullUserSdk_def exampleSdk_def tok)
  have d: "addUserForCode failingSdk (paramText (query_code exampleQuery)) =
       Inl (Thrown ''Invalid authorization code'')"
    by (simp add: failingSdk_def)
  have e: "getUserById failingLookupSdk ''4242'' = Inl (Thrown ''Failed to fetch'')"
    "getUserById nullUserSdk ''4242'' = Inr None"
    by (simp_all add: failingLookupSdk_def nullUserSdk_def)
  show ?thesis
    unfolding a b c using examplePending_passes d e by simp
qed

text \<open>What the evaluation shows: no \<open>500\<close> in the two runs that threw, one in the third.\<close>

theorem downstream_throw_leaves_request_unanswered_witness:
  "answer (effects (snd (routeTwitchAuthCallback failingSdk exampleQuery examplePending))) \<noteq>
     Some (serverError ''Failed to get access token.'')
   \<and> Send (serverError ''Failed to load user.'') \<notin>
       set (effects (snd (routeTwitchAuthCallback failingLookupSdk exampleQuery examplePending)))
   \<and> Send (serverError ''Failed to load user.'') \<in>
       set (effects (snd (routeTwitchAuthCallback nullUserSdk exampleQuery examplePending)))"
  using downstream_throw_leaves_request_unanswered by simp

lemma bot_turn:
  assumes "checkPasses q srv"
    and "addUserForCode sdk (paramText (query_code q)) = Inr uid"
    and "getAccessTokenForUser sdk uid = Inr tok"
    and "truthy tok"
    and "getUserById sdk uid = Inr (Some u)"
    and "name u = user (botConfig srv)"
  shows "callbackTurn sdk q (srv, fs) =
      ((fst (routeTwitchAuthCallback sdk q srv), settle (cacheTwitchAccessToken uid tok) fs),
       [AddUserForCode (paramText (query_code q)), GetAccessTokenForUser uid, GetUserById uid,
        Start (cacheTwitchAccessToken uid tok), ConsoleLogUser u, CreateBot u,
        Send (welcomeResponse u), Settled (cacheTwitchAccessToken uid tok)])"
proof -
  have r: "snd (routeTwitchAuthCallback sdk q srv) =
      \<lparr> effects = [AddUserForCode (paramText (query_code q)), GetAccessTokenForUser uid,
                   GetUserById uid, Start (cacheTwitchAccessToken uid tok), ConsoleLogUser u,
                   CreateBot u, Send (welcomeResponse u)],
        thrown = None \<rparr>"
    using assms(2-6) by (simp add: callback_passed_run [OF assms(1)])
  then show ?thesis
    by (simp add: callbackTurn_def Let_def split_beta)
qed

lemma example_bot_run:
  "addUserForCode exampleSdk (paramText (query_code exampleQuery)) = Inr ''4242''"
  "getAccessTokenForUser exampleSdk ''4242'' = Inr exampleToken"
  "truthy exampleToken"
  "getUserById exampleSdk ''4242'' = Inr (Some exampleUser)"
  "name exampleUser = user (botConfig examplePending)"
  by (simp_all add: exampleSdk_def exampleToken_def exampleUser_def examplePending_def
      redirect_server newServer_def exampleConfig_def Let_def)

text \<open>
  Claim C4, as the code has it. In every successful run of the callback whose user is the
  configured bot user, the cache write is started (\<open>cacheTwitchAccessToken\<close> is called, not
  awaited) before \<open>createBot\<close> is called, and it is settled only after \<open>createBot\<close> and the
  answer: the trace of the turn is exactly the one below, and the folder after the turn is the
  folder with that one write settled.
\<close>

theorem bot_callback_order:
  assumes "checkPasses q srv"
    and "addUserForCode sdk (paramText (query_code q)) = Inr uid"
    and "getAccessTokenForUser sdk uid = Inr tok"
    and "truthy tok"
    and "getUserById sdk uid = Inr (Some u)"
    and "name u = user (botConfig srv)"
  shows "snd (callbackTurn sdk q (srv, fs)) =
      [AddUserForCode (paramText (query_code q)), GetAccessTokenForUser uid, GetUserById uid,
       Start (cacheTwitchAccessToken uid tok), ConsoleLogUser u, CreateBot u,
       Send (welcomeResponse u), Settled (cacheTwitchAccessToken uid tok)]
    \<and> before (Start (cacheTwitchAccessToken uid tok)) (CreateBot u)
        (snd (callbackTurn sdk q (srv, fs)))
    \<and> before (CreateBot u) (Settled (cacheTwitchAccessToken uid tok))
        (snd (callbackTurn sdk q (srv, fs)))
    \<and> before (Send (welcomeResponse u)) (Settled (cacheTwitchAccessToken uid tok))
        (snd (callbackTurn sdk q (srv, fs)))
    \<and> snd (fst (callbackTurn sdk q (srv, fs))) = settle (cacheTwitchAccessToken uid tok) fs"
  by (simp add: bot_turn [OF assms])

text \<open>The statement at the example values.\<close>

theorem bot_callback_order_witness:
  "checkPasses exampleQuery examplePending
   \<and> addUserForCode exampleSdk (paramText (query_code exampleQuery)) = Inr ''4242''
   \<and> getAccessTokenForUser exampleSdk ''4242'' = Inr exampleToken
   \<and> truthy exampleToken
   \<and> getUserById exampleSdk ''4242'' = Inr (Some exampleUser)
   \<and> name exampleUser = user (botConfig examplePending)
   \<and> before (Start (cacheTwitchAccessToken ''4242'' exampleToken)) (CreateBot exampleUser)
        (snd (callbackTurn exampleSdk exampleQuery (examplePending, Folder [])))
   \<and> before (CreateBot exampleUser) (Settled (cacheTwitchAccessToken ''4242'' exampleToken))
        (snd (callbackTurn exampleSdk exampleQuery (examplePending, Folder [])))"
  using bot_callback_order [OF examplePending_passes example_bot_run, of "Folder []"]
    examplePending_passes example_bot_run
  by blast

text \<open>Against the claim as it was stated: the bot is attached before the write is complete.\<close>

theorem bot_attached_before_write_completes:
  "answer (snd (callbackTurn exampleSdk exampleQuery (examplePending, Folder []))) =
     Some (welcomeResponse exampleUser)
   \<and> name exampleUser = user (botConfig examplePending)
   \<and> before (CreateBot exampleUser) (Settled (cacheTwitchAccessToken ''4242'' exampleToken))
        (snd (callbackTurn exampleSdk exampleQuery (examplePending, Folder [])))
   \<and> \<not> before (Settled (cacheTwitchAccessToken ''4242'' exampleToken)) (CreateBot exampleUser)
        (snd (callbackTurn exampleSdk exampleQuery (examplePending, Folder [])))"
  using example_bot_run(5)
  by (simp add: bot_turn [OF examplePending_passes example_bot_run])

section \<open>The token cache\<close>

subsection \<open>Removing a cached token\<close>

lemma entryName_cacheFileName: "entryName (cacheFileName u) = entryName u"
  by (auto simp: entryName_def cacheFileName_def)

lemma map_of_delete_same: "map_of (AList.delete k al) k = None"
  by (simp add: delete_conv')

lemma map_of_delete_other: "k' \<noteq> k \<Longrightarrow> map_of (AList.delete k al) k' = map_of al k'"
  by (simp add: delete_conv')

lemma rm_present:
  "entryName n \<Longrightarrow> map_of fl n = Some t \<Longrightarrow>
     fs_rm n (Folder fl) = Inr (Folder (AList.delete n fl))"
  by (simp add: fs_rm_def)

lemma rm_absent: "entryName n \<Longrightarrow> map_of fl n = None \<Longrightarrow> fs_rm n (Folder fl) = Inl ENOENT"
  by (simp add: fs_rm_def)

lemma readCachedToken_absent:
  "entryName n \<Longrightarrow> map_of fl n = None \<Longrightarrow> readCachedToken n (Folder fl) = Inl ENOENT"
  by (simp add: readCachedToken_def fs_readFile_def)

lemma readdir_delete: "fs_readdir (Folder (AList.delete n fl)) = Inr (filter (\<lambda>k. k \<noteq> n) (map fst fl))"
  by (induction fl) (auto simp: fs_readdir_def)

text \<open>
  Claim C5, as the code has it. For a user id that names an entry of the folder:
  \<open>uncacheTwitchAccessToken\<close> removes the file of the user when there is one, after which it is
  neither read nor listed and every other entry is as before; a second call, like any call
  without a file, fails with \<open>ENOENT\<close>.
\<close>

theorem uncache_removes_present_file:
  assumes "entryName u"
  shows "(map_of fl (cacheFileName u) \<noteq> None \<longrightarrow>
            perform (uncacheTwitchAccessToken u) (Folder fl) =
              Inr (Folder (AList.delete (cacheFileName u) fl)) \<and>
            readCachedToken (cacheFileName u) (Folder (AList.delete (cacheFileName u) fl)) =
              Inl ENOENT \<and>
            fs_readdir (Folder (AList.delete (cacheFileName u) fl)) =
              Inr (filter (\<lambda>k. k \<noteq> cacheFileName u) (map fst fl)) \<and>
            (k \<noteq> cacheFileName u \<longrightarrow>
               map_of (AList.delete (cacheFileName u) fl) k = map_of fl k) \<and>
            perform (uncacheTwitchAccessToken u) (Folder (AList.delete (cacheFileName u) fl)) =
              Inl ENOENT)
    \<and> (map_of fl (cacheFileName u) = None \<longrightarrow>
            perform (uncacheTwitchAccessToken u) (Folder fl) = Inl ENOENT)
    \<and> perform (uncacheTwitchAccessToken u) Missing = Inl ENOENT"
proof -
  have n: "entryName (cacheFileName u)" using assms by (simp add: entryName_cacheFileName)
  show ?thesis
    using n
    by (auto simp: uncacheTwitchAccessToken_def rm_present rm_absent map_of_delete_same
        map_of_delete_other readCachedToken_absent readdir_delete fs_rm_def)
qed

text \<open>The statement at the example values.\<close>

theorem uncache_removes_present_file_witness:
  "entryName ''4242''
   \<and> map_of [(''twitch.4242.json'', ''null''), (''twitch.7.json'', ''null'')] (cacheFileName ''4242'') \<noteq> None
   \<and> ''twitch.7.json'' \<noteq> cacheFileName ''4242''
   \<and> perform (uncacheTwitchAccessToken ''4242'')
        (Folder [(''twitch.4242.json'', ''null''), (''twitch.7.json'', ''null'')]) =
      Inr (Folder [(''twitch.7.json'', ''null'')])
   \<and> map_of (AList.delete (cacheFileName ''4242'')
        [(''twitch.4242.json'', ''null''), (''twitch.7.json'', ''null'')]) ''twitch.7.json'' = Some ''null''"
proof -
  have e: "entryName ''4242''" by (simp add: entryName_def)
  have c: "cacheFileName ''4242'' = ''twitch.4242.json''" by (simp add: cacheFileName_def)
  from uncache_removes_present_file [OF e,
      of "[(''twitch.4242.json'', ''null''), (''twitch.7.json'', ''null'')]" "''twitch.7.json''"]
  show ?thesis using e by (simp add: c)
qed

text \<open>Against the claim as it was stated: the second removal is an error.\<close>

theorem uncache_twice_fails:
  "perform (uncacheTwitchAccessToken ''4242'') (Folder [(''twitch.4242.json'', ''null'')]) =
     Inr (Folder [])
   \<and> perform (uncacheTwitchAccessToken ''4242'') (Folder []) = Inl ENOENT"
  by (simp add: uncacheTwitchAccessToken_def cacheFileName_def fs_rm_def entryName_def)

subsection \<open>Numbers in JSON text\<close>

lemma isDigit_digitChar: "d < 10 \<Longrightarrow> isDigit (digitChar d)"
  by (simp add: isDigit_def digitChar_def)

lemma digitValue_digitChar: "d < 10 \<Longrightarrow> digitValue (digitChar d) = d"
  by (simp add: digitValue_def digitChar_def)

lemma digitChar_zero: "d < 10 \<Longrightarrow> (digitChar d = CHR ''0'') = (d = 0)"
  by (auto simp: digitChar_def char_of_eq_iff take_bit_eq_mod)

lemma showNat_nonempty: "showNat n \<noteq> []"
  by (subst showNat.simps) simp

lemma showNat_digits: "c \<in> set (showNat n) \<Longrightarrow> isDigit c"
proof (induction n rule: showNat.induct)
  case (1 n)
  show ?case
  proof (cases "n < 10")
    case True
    with "1.prems" show ?thesis
      by (subst (asm) showNat.simps) (simp add: isDigit_digitChar)
  next
    case False
    with "1.prems" "1.IH" show ?thesis
      by (subst (asm) showNat.simps) (auto simp: isDigit_digitChar)
  qed
qed

lemma natOfDigits_snoc: "natOfDigits (ds @ [c]) = natOfDigits ds * 10 + digitValue c"
  by (simp add: natOfDigits_def)

lemma natOfDigits_showNat: "natOfDigits (showNat n) = n"
proof (induction n rule: showNat.induct)
  case (1 n)
  show ?case
  proof (cases "n < 10")
    case True
    then show ?thesis
      by (subst showNat.simps) (simp add: natOfDigits_def digitValue_digitChar)
  next
    case False
    with "1.IH" show ?thesis
      by (subst showNat.simps) (simp add: natOfDigits_snoc digitValue_digitChar)
  qed
qed

lemma showNat_leading: "(hd (showNat n) = CHR ''0'') = (n = 0)"
proof (induction n rule: showNat.induct)
  case (1 n)
  show ?case
  proof (cases "n < 10")
    case True
    then show ?thesis
      by (subst showNat.simps) (simp add: digitChar_zero)
  next
    case False
    then have "n div 10 \<noteq> 0" by simp
    with False "1.IH" show ?thesis
      by (subst showNat.simps) (simp add: showNat_nonempty)
  qed
qed

lemma showNat_0: "showNat 0 = ''0''"
  by (subst showNat.simps) (simp add: digitChar_def char_of_eq_iff)

lemma closing_not_digit: "closing rest \<Longrightarrow> takeWhile isDigit rest = []"
  by (cases rest) (auto simp: closing_def isDigit_def)

lemma fracPart_closing: "closing rest \<Longrightarrow> fracPart rest = Some (False, rest)"
  by (cases rest) (auto simp: closing_def fracPart_def)

lemma expPart_closing: "closing rest \<Longrightarrow> expPart rest = Some (False, rest)"
  by (cases rest) (auto simp: closing_def expPart_def)

lemma parseNumber_plain:
  assumes "isDigit c" and "\<forall>x \<in> set cs. isDigit x" and "c = CHR ''0'' \<longrightarrow> cs = []"
    and "closing rest" and "natOfDigits (c # cs) \<le> MAX_SAFE_INTEGER"
  shows "parseNumber (c # cs @ rest) = Inr (JNum (int (natOfDigits (c # cs))), rest)"
proof -
  have nm: "c \<noteq> CHR ''-''" using assms(1) by (auto simp: isDigit_def)
  have tw: "takeWhile isDigit (cs @ rest) = cs"
    using assms(2) closing_not_digit [OF assms(4)] by (simp add: takeWhile_append2)
  show ?thesis
  proof (cases "c = CHR ''0''")
    case True
    with assms(3) have "cs = []" by simp
    with True nm assms(4,5) show ?thesis
      by (simp add: parseNumber_def Let_def fracPart_closing expPart_closing)
  next
    case False
    with nm assms(1,4,5) tw show ?thesis
      by (simp add: parseNumber_def Let_def fracPart_closing expPart_closing)
  qed
qed

lemma parseNumber_minus:
  assumes "isDigit c" and "\<forall>x \<in> set cs. isDigit x" and "c = CHR ''0'' \<longrightarrow> cs = []"
    and "closing rest" and "natOfDigits (c # cs) \<le> MAX_SAFE_INTEGER"
  shows "parseNumber (CHR ''-'' # c # cs @ rest) = Inr (JNum (- int (natOfDigits (c # cs))), rest)"
proof -
  have tw: "takeWhile isDigit (cs @ rest) = cs"
    using assms(2) closing_not_digit [OF assms(4)] by (simp add: takeWhile_append2)
  show ?thesis
  proof (cases "c = CHR ''0''")
    case True
    with assms(3) have "cs = []" by simp
    with True assms(4,5) show ?thesis
      by (simp add: parseNumber_def Let_def fracPart_closing expPart_closing)
  next
    case False
    with assms(1,4,5) tw show ?thesis
      by (simp add: parseNumber_def Let_def fracPart_closing expPart_closing)
  qed
qed

lemma showNat_shape:
  "\<exists>c cs. showNat n = c # cs \<and> isDigit c \<and> (\<forall>x \<in> set cs. isDigit x) \<and>
     (c = CHR ''0'' \<longrightarrow> cs = [])"
proof -
  obtain c cs where cs: "showNat n = c # cs"
    using showNat_nonempty [of n] by (cases "showNat n") auto
  have "c = CHR ''0'' \<Longrightarrow> cs = []"
  proof -
    assume "c = CHR ''0''"
    then have "n = 0" using showNat_leading [of n] cs by simp
    then show ?thesis using cs by (simp add: showNat_0)
  qed
  then show ?thesis using cs showNat_digits [of _ n] by auto
qed

lemma parseNumber_showInt:
  assumes "closing rest" and "\<bar>i\<bar> \<le> int MAX_SAFE_INTEGER"
  shows "parseNumber (showInt i @ rest) = Inr (JNum i, rest)"
proof (cases "i < 0")
  case False
  obtain c cs where s: "showNat (nat i) = c # cs" "isDigit c" "\<forall>x \<in> set cs. isDigit x"
      "c = CHR ''0'' \<longrightarrow> cs = []"
    using showNat_shape [of "nat i"] by blast
  have "natOfDigits (c # cs) = nat i" using natOfDigits_showNat [of "nat i"] s(1) by simp
  moreover have "nat i \<le> MAX_SAFE_INTEGER" using False assms(2) by simp
  ultimately show ?thesis
    using parseNumber_plain [OF s(2-4) assms(1)] False s(1) by (simp add: showInt_def)
next
  case True
  obtain c cs where s: "showNat (nat (- i)) = c # cs" "isDigit c" "\<forall>x \<in> set cs. isDigit x"
      "c = CHR ''0'' \<longrightarrow> cs = []"
    using showNat_shape [of "nat (- i)"] by blast
  have "natOfDigits (c # cs) = nat (- i)" using natOfDigits_showNat [of "nat (- i)"] s(1) by simp
  moreover have "nat (- i) \<le> MAX_SAFE_INTEGER" using True assms(2) by simp
  ultimately show ?thesis
    using parseNumber_minus [OF s(2-4) assms(1)] True s(1) by (simp add: showInt_def)
qed

subsection \<open>Strings in JSON text\<close>

lemma hexValue_hexDigit: "d < 16 \<Longrightarrow> hexValue (hexDigit d) = Some d"
  by (auto simp: hexValue_def hexDigit_def Let_def)

lemma hexValue_zero: "hexValue CHR ''0'' = Some 0"
  by (simp add: hexValue_def)

lemma control_code:
  assumes "(of_char c :: nat) < 32"
  shows "hex4 CHR ''0'' CHR ''0'' (hexDigit (of_char c div 16)) (hexDigit (of_char c mod 16)) =
      Some (of_char c)"
proof -
  have "(of_char c :: nat) div 16 < 16" using assms by simp
  then show ?thesis
    by (simp add: hex4_def hexValue_zero hexValue_hexDigit)
qed

lemma parseChars_quoteChar: "parseChars (quoteChar c @ t) = consChar c (parseChars t)"
proof -
  consider (special) "c = CHR 0x22 \<or> c = CHR 0x5C \<or> c = CHR 0x08 \<or> c = CHR 0x0C \<or>
      c = CHR 0x0A \<or> c = CHR 0x0D \<or> c = CHR 0x09"
    | (control) "c \<noteq> CHR 0x22" "c \<noteq> CHR 0x5C" "c \<noteq> CHR 0x08" "c \<noteq> CHR 0x0C"
        "c \<noteq> CHR 0x0A" "c \<noteq> CHR 0x0D" "c \<noteq> CHR 0x09" "(of_char c :: nat) < 32"
    | (plain) "c \<noteq> CHR 0x22" "c \<noteq> CHR 0x5C" "c \<noteq> CHR 0x08" "c \<noteq> CHR 0x0C"
        "c \<noteq> CHR 0x0A" "c \<noteq> CHR 0x0D" "c \<noteq> CHR 0x09" "\<not> (of_char c :: nat) < 32"
    by blast
  then show ?thesis
  proof cases
    case special
    then show ?thesis
      by (elim disjE) (simp_all add: quoteChar_def unescape_def)
  next
    case control
    then show ?thesis
      by (simp add: quoteChar_def control_code)
  next
    case plain
    then show ?thesis
      by (simp add: quoteChar_def)
  qed
qed

lemma parseChars_quoted:
  "parseChars (concat (map quoteChar s) @ CHR 0x22 # rest) = Inr (s, rest)"
  by (induction s) (simp_all add: parseChars_quoteChar consChar_def)

lemma parseChars_quoteJSON: "parseChars (tl (quoteJSON s) @ rest) = Inr (s, rest)"
  using parseChars_quoted [of s rest] by (simp add: quoteJSON_def)

lemma quoteJSON_head: "quoteJSON s = CHR 0x22 # tl (quoteJSON s)"
  by (simp add: quoteJSON_def)

subsection \<open>\<open>JSON.parse\<close> reads back what \<open>JSON.stringify\<close> wrote\<close>

lemma isDigit_not_ws: "isDigit c \<Longrightarrow> \<not> isWs c"
  by (auto simp: isDigit_def isWs_def)

lemma showInt_shape:
  "\<exists>c cs. showInt i = c # cs \<and> (c = CHR ''-'' \<or> isDigit c)"
  using showNat_shape [of "nat i"] by (auto simp: showInt_def)

lemma isDigit_plain:
  "isDigit c \<Longrightarrow> c \<noteq> CHR ''{'' \<and> c \<noteq> CHR ''['' \<and> c \<noteq> CHR 0x22 \<and> c \<noteq> CHR '']'' \<and> c \<noteq> CHR ''}''"
  by (auto simp: isDigit_def)

lemma pv_null: "parseValue (Suc m) (''null'' @ rest) = Inr (JNull, rest)"
  by (simp add: isWs_def isDigit_def parseLiteral_def)

lemma pv_true: "parseValue (Suc m) (''true'' @ rest) = Inr (JBool True, rest)"
  by (simp add: isWs_def isDigit_def parseLiteral_def)

lemma pv_false: "parseValue (Suc m) (''false'' @ rest) = Inr (JBool False, rest)"
  by (simp add: isWs_def isDigit_def parseLiteral_def)

lemma pv_num:
  assumes "closing rest" and "\<bar>i\<bar> \<le> int MAX_SAFE_INTEGER"
  shows "parseValue (Suc m) (showInt i @ rest) = Inr (JNum i, rest)"
proof -
  obtain c cs where s: "showInt i = c # cs" "c = CHR ''-'' \<or> isDigit c"
    using showInt_shape by blast
  have nws: "\<not> isWs c" using s(2) isDigit_not_ws by (auto simp: isWs_def)
  have pl: "c \<noteq> CHR ''{''" "c \<noteq> CHR ''[''" "c \<noteq> CHR 0x22"
    using s(2) isDigit_plain [of c] by auto
  have "parseValue (Suc m) (c # cs @ rest) = parseNumber (c # cs @ rest)"
    using nws pl s(2) by simp
  then show ?thesis
    using parseNumber_showInt [OF assms] s(1) by simp
qed

lemma pv_str: "parseValue (Suc m) (quoteJSON s @ rest) = Inr (JStr s, rest)"
proof -
  have "parseValue (Suc m) (CHR 0x22 # tl (quoteJSON s) @ rest) = Inr (JStr s, rest)"
    by (simp add: isWs_def parseChars_quoteJSON)
  then show ?thesis
    using quoteJSON_head [of s] by (metis append_Cons)
qed

lemma stringify_head:
  "\<exists>c cs. JSON_stringify v = c # cs \<and> \<not> isWs c \<and> c \<noteq> CHR '']'' \<and> c \<noteq> CHR ''}''"
proof (cases v)
  case (JNum i)
  obtain c cs where s: "showInt i = c # cs" "c = CHR ''-'' \<or> isDigit c"
    using showInt_shape by blast
  then have "\<not> isWs c \<and> c \<noteq> CHR '']'' \<and> c \<noteq> CHR ''}''"
    using isDigit_not_ws [of c] isDigit_plain [of c] by (auto simp: isWs_def)
  with s JNum show ?thesis by simp
qed (auto simp: isWs_def quoteJSON_def)

lemma pv_arr:
  assumes "t = c # cs" and "\<not> isWs c" and "c \<noteq> CHR '']''"
  shows "parseValue (Suc m) (CHR ''['' # t @ rest) = parseElems m [] (t @ rest)"
  using assms by (simp add: isWs_def)

lemma pv_obj:
  assumes "t = c # cs" and "\<not> isWs c" and "c \<noteq> CHR ''}''"
  shows "parseValue (Suc m) (CHR ''{'' # t @ rest) = parseMembers m [] (t @ rest)"
  using assms by (simp add: isWs_def)

lemma stringifyElems_head:
  assumes "vs \<noteq> []"
  shows "\<exists>c cs. stringifyElems vs = c # cs \<and> \<not> isWs c \<and> c \<noteq> CHR '']''"
proof -
  obtain v ws where vs: "vs = v # ws" using assms by (cases vs) auto
  show ?thesis using stringify_head [of v] vs by (cases ws) auto
qed

lemma stringifyMembers_head:
  assumes "ms \<noteq> []"
  shows "\<exists>cs. stringifyMembers ms = CHR 0x22 # cs"
proof -
  obtain k v ps where ms: "ms = (k, v) # ps" using assms by (cases ms) auto
  show ?thesis using ms by (cases ps) (auto simp: quoteJSON_def)
qed

lemma update_fresh: "k \<notin> fst ` set al \<Longrightarrow> AList.update k v al = al @ [(k, v)]"
  by (induction al) auto

lemma pe_last:
  assumes "parseValue m cs = Inr (v, CHR '']'' # rest)"
  shows "parseElems (Suc m) acc cs = Inr (JArr (acc @ [v]), rest)"
  using assms by (simp add: isWs_def)

lemma pe_more:
  assumes "parseValue m cs = Inr (v, CHR '','' # later)"
  shows "parseElems (Suc m) acc cs = parseElems m (acc @ [v]) later"
  using assms by (simp add: isWs_def)

lemma pm_last:
  assumes "parseValue m cs = Inr (v, CHR ''}'' # rest)"
  shows "parseMembers (Suc m) acc (quoteJSON k @ CHR '':'' # cs) =
     Inr (JObj (AList.update k v acc), rest)"
proof -
  have "parseMembers (Suc m) acc (CHR 0x22 # tl (quoteJSON k) @ CHR '':'' # cs) =
     Inr (JObj (AList.update k v acc), rest)"
    using assms by (simp add: isWs_def parseChars_quoteJSON)
  then show ?thesis using quoteJSON_head [of k] by (metis append_Cons)
qed

lemma pm_more:
  assumes "parseValue m cs = Inr (v, CHR '','' # later)"
  shows "parseMembers (Suc m) acc (quoteJSON k @ CHR '':'' # cs) =
     parseMembers m (AList.update k v acc) later"
proof -
  have "parseMembers (Suc m) acc (CHR 0x22 # tl (quoteJSON k) @ CHR '':'' # cs) =
     parseMembers m (AList.update k v acc) later"
    using assms by (simp add: isWs_def parseChars_quoteJSON)
  then show ?thesis using quoteJSON_head [of k] by (metis append_Cons)
qed

lemma closing_simps:
  "closing []" "closing (CHR '','' # r)" "closing (CHR '']'' # r)" "closing (CHR ''}'' # r)"
  by (simp_all add: closing_def)

lemma roundtrip:
  "safeJson v \<longrightarrow> (\<forall>n rest. closing rest \<longrightarrow> 2 * length (JSON_stringify v @ rest) < n \<longrightarrow>
      parseValue n (JSON_stringify v @ rest) = Inr (v, rest))"
  "vs \<noteq> [] \<longrightarrow> safeElems vs \<longrightarrow>
     (\<forall>n acc rest. 2 * length (stringifyElems vs @ CHR '']'' # rest) + 1 < n \<longrightarrow>
        parseElems n acc (stringifyElems vs @ CHR '']'' # rest) = Inr (JArr (acc @ vs), rest))"
  "ms \<noteq> [] \<longrightarrow> safeMembers ms \<longrightarrow>
     (\<forall>n acc rest. fst ` set acc \<inter> fst ` set ms = {} \<longrightarrow>
        2 * length (stringifyMembers ms @ CHR ''}'' # rest) + 1 < n \<longrightarrow>
        parseMembers n acc (stringifyMembers ms @ CHR ''}'' # rest) = Inr (JObj (acc @ ms), rest))"
proof (induction v and vs and ms rule: JSON_stringify_stringifyElems_stringifyMembers.induct)
  case 1
  show ?case
  proof (intro impI allI)
    fix n rest assume "2 * length (JSON_stringify JNull @ rest) < n"
    then obtain m where "n = Suc m" by (cases n) auto
    then show "parseValue n (JSON_stringify JNull @ rest) = Inr (JNull, rest)"
      using pv_null by simp
  qed
next
  case (2 b)
  show ?case
  proof (intro impI allI)
    fix n rest assume "2 * length (JSON_stringify (JBool b) @ rest) < n"
    then obtain m where "n = Suc m" by (cases n) auto
    then show "parseValue n (JSON_stringify (JBool b) @ rest) = Inr (JBool b, rest)"
      using pv_true [of m rest] pv_false [of m rest] by (cases b) simp_all
  qed
next
  case (3 i)
  show ?case
  proof (intro impI allI)
    fix n rest
    assume s: "safeJson (JNum i)" and c: "closing rest"
      and "2 * length (JSON_stringify (JNum i) @ rest) < n"
    then obtain m where "n = Suc m" by (cases n) auto
    then show "parseValue n (JSON_stringify (JNum i) @ rest) = Inr (JNum i, rest)"
      using pv_num [OF c, of i m] s by simp
  qed
next
  case (4 s)
  show ?case
  proof (intro impI allI)
    fix n rest assume "2 * length (JSON_stringify (JStr s) @ rest) < n"
    then obtain m where "n = Suc m" by (cases n) auto
    then show "parseValue n (JSON_stringify (JStr s) @ rest) = Inr (JStr s, rest)"
      using pv_str by simp
  qed
next
  case (5 vs)
  show ?case
  proof (intro impI allI)
    fix n rest
    assume s: "safeJson (JArr vs)" and f: "2 * length (JSON_stringify (JArr vs) @ rest) < n"
    then obtain m where m: "n = Suc m" by (cases n) auto
    show "parseValue n (JSON_stringify (JArr vs) @ rest) = Inr (JArr vs, rest)"
    proof (cases "vs = []")
      case True
      with m show ?thesis by (simp add: isWs_def)
    next
      case False
      then obtain c cs where h: "stringifyElems vs = c # cs" "\<not> isWs c" "c \<noteq> CHR '']''"
        using stringifyElems_head by blast
      have "parseValue (Suc m) (CHR ''['' # stringifyElems vs @ (CHR '']'' # rest)) =
          parseElems m [] (stringifyElems vs @ (CHR '']'' # rest))"
        using h by (rule pv_arr)
      moreover have "parseElems m [] (stringifyElems vs @ CHR '']'' # rest) = Inr (JArr ([] @ vs), rest)"
        using 5 False s f m by simp
      ultimately show ?thesis using m by simp
    qed
  qed
next
  case (6 ms)
  show ?case
  proof (intro impI allI)
    fix n rest
    assume s: "safeJson (JObj ms)" and f: "2 * length (JSON_stringify (JObj ms) @ rest) < n"
    then obtain m where m: "n = Suc m" by (cases n) auto
    show "parseValue n (JSON_stringify (JObj ms) @ rest) = Inr (JObj ms, rest)"
    proof (cases "ms = []")
      case True
      with m show ?thesis by (simp add: isWs_def)
    next
      case False
      then obtain cs where h: "stringifyMembers ms = CHR 0x22 # cs"
        using stringifyMembers_head by blast
      have "parseValue (Suc m) (CHR ''{'' # stringifyMembers ms @ (CHR ''}'' # rest)) =
          parseMembers m [] (stringifyMembers ms @ (CHR ''}'' # rest))"
        using h by (rule pv_obj) (simp_all add: isWs_def)
      moreover have "parseMembers m [] (stringifyMembers ms @ CHR ''}'' # rest) =
          Inr (JObj ([] @ ms), rest)"
        using 6 False s f m by simp
      ultimately show ?thesis using m by simp
    qed
  qed
next
  case 7
  show ?case by simp
next
  case (8 v)
  show ?case
  proof (intro impI allI)
    fix n acc rest
    assume s: "safeElems [v]"
      and f: "2 * length (stringifyElems [v] @ CHR '']'' # rest) + 1 < n"
    then obtain m where m: "n = Suc m" by (cases n) auto
    have "parseValue m (JSON_stringify v @ CHR '']'' # rest) = Inr (v, CHR '']'' # rest)"
      using 8 s f m by (simp add: closing_simps)
    then have "parseElems (Suc m) acc (JSON_stringify v @ CHR '']'' # rest) =
        Inr (JArr (acc @ [v]), rest)"
      by (rule pe_last)
    then show "parseElems n acc (stringifyElems [v] @ CHR '']'' # rest) = Inr (JArr (acc @ [v]), rest)"
      using m by simp
  qed
next
  case (9 v w vs)
  show ?case
  proof (intro impI allI)
    fix n acc rest
    assume s: "safeElems (v # w # vs)"
      and f: "2 * length (stringifyElems (v # w # vs) @ CHR '']'' # rest) + 1 < n"
    then obtain m where m: "n = Suc m" by (cases n) auto
    let ?tailtext = "stringifyElems (w # vs) @ CHR '']'' # rest"
    have "parseValue m (JSON_stringify v @ CHR '','' # ?tailtext) = Inr (v, CHR '','' # ?tailtext)"
      using "9.IH"(1) s f m by (simp add: closing_simps)
    then have "parseElems (Suc m) acc (JSON_stringify v @ CHR '','' # ?tailtext) =
        parseElems m (acc @ [v]) ?tailtext"
      by (rule pe_more)
    moreover have "parseElems m (acc @ [v]) ?tailtext = Inr (JArr ((acc @ [v]) @ w # vs), rest)"
      using "9.IH"(2) s f m by simp
    ultimately show "parseElems n acc (stringifyElems (v # w # vs) @ CHR '']'' # rest) =
        Inr (JArr (acc @ v # w # vs), rest)"
      using m by simp
  qed
next
  case 10
  show ?case by simp
next
  case (11 k v)
  show ?case
  proof (intro impI allI)
    fix n and acc :: "(string \<times> json) list" and rest
    assume s: "safeMembers [(k, v)]"
      and d: "fst ` set acc \<inter> fst ` set [(k, v)] = {}"
      and f: "2 * length (stringifyMembers [(k, v)] @ CHR ''}'' # rest) + 1 < n"
    then obtain m where m: "n = Suc m" by (cases n) auto
    have "parseValue m (JSON_stringify v @ CHR ''}'' # rest) = Inr (v, CHR ''}'' # rest)"
      using 11 s f m by (simp add: closing_simps)
    then have "parseMembers (Suc m) acc (quoteJSON k @ CHR '':'' # JSON_stringify v @ CHR ''}'' # rest) =
        Inr (JObj (AList.update k v acc), rest)"
      by (rule pm_last)
    moreover have "AList.update k v acc = acc @ [(k, v)]"
      using d by (intro update_fresh) auto
    ultimately show "parseMembers n acc (stringifyMembers [(k, v)] @ CHR ''}'' # rest) =
        Inr (JObj (acc @ [(k, v)]), rest)"
      using m by simp
  qed
next
  case (12 k v p ms)
  show ?case
  proof (intro impI allI)
    fix n and acc :: "(string \<times> json) list" and rest
    assume s: "safeMembers ((k, v) # p # ms)"
      and d: "fst ` set acc \<inter> fst ` set ((k, v) # p # ms) = {}"
      and f: "2 * length (stringifyMembers ((k, v) # p # ms) @ CHR ''}'' # rest) + 1 < n"
    then obtain m where m: "n = Suc m" by (cases n) auto
    let ?tailtext = "stringifyMembers (p # ms) @ CHR ''}'' # rest"
    have "parseValue m (JSON_stringify v @ CHR '','' # ?tailtext) = Inr (v, CHR '','' # ?tailtext)"
      using "12.IH"(1) s f m by (simp add: closing_simps)
    then have "parseMembers (Suc m) acc (quoteJSON k @ CHR '':'' # JSON_stringify v @ CHR '','' # ?tailtext) =
        parseMembers m (AList.update k v acc) ?tailtext"
      by (rule pm_more)
    moreover have u: "AList.update k v acc = acc @ [(k, v)]"
      using d by (intro update_fresh) auto
    moreover have "fst ` set (acc @ [(k, v)]) \<inter> fst ` set (p # ms) = {}"
      using d s by auto
    then have "parseMembers m (acc @ [(k, v)]) ?tailtext = Inr (JObj ((acc @ [(k, v)]) @ p # ms), rest)"
      using "12.IH"(2) s f m by simp
    ultimately show "parseMembers n acc (stringifyMembers ((k, v) # p # ms) @ CHR ''}'' # rest) =
        Inr (JObj (acc @ (k, v) # p # ms), rest)"
      using m by simp
  qed
qed

lemma JSON_parse_stringify: "safeJson v \<Longrightarrow> JSON_parse (JSON_stringify v) = Inr v"
proof -
  assume "safeJson v"
  with roundtrip(1) [of v]
  have "closing [] \<longrightarrow> 2 * length (JSON_stringify v @ []) < 2 * length (JSON_stringify v) + 1 \<longrightarrow>
      parseValue (2 * length (JSON_stringify v) + 1) (JSON_stringify v @ []) = Inr (v, [])"
    by blast
  then have "parseValue (2 * length (JSON_stringify v) + 1) (JSON_stringify v) = Inr (v, [])"
    by (simp add: closing_simps del: parseValue.simps)
  then show ?thesis by (simp add: JSON_parse_def del: parseValue.simps)
qed

lemma JSON_parse_null: "JSON_parse ''null'' = Inr JNull"
  using JSON_parse_stringify [of JNull] by simp

subsection \<open>The parser never runs out of fuel\<close>

lemma skipWs_length: "length (skipWs cs) \<le> length cs"
  by (induction cs) auto

lemma skipWs_Cons: "skipWs cs = c # rest \<Longrightarrow> length rest < length cs"
  using skipWs_length [of cs] by simp

lemma consChar_Inr: "consChar c r = Inr (s, rest) \<Longrightarrow> \<exists>s'. r = Inr (s', rest)"
  by (auto simp: consChar_def split: sum.splits)

lemma consChar_fuel: "consChar c r = Inl OutOfFuel \<Longrightarrow> r = Inl OutOfFuel"
  by (auto simp: consChar_def split: sum.splits)

lemma parseChars_shorter: "parseChars cs = Inr (s, r) \<Longrightarrow> length r < length cs"
proof (induction cs arbitrary: s rule: length_induct)
  case (1 xs)
  have sub: "parseChars ys = Inr (t, r) \<Longrightarrow> length ys < length xs \<Longrightarrow> length r < length ys"
    for ys t
    using "1.IH" by blast
  show ?case
  proof (cases xs)
    case Nil
    with "1.prems" show ?thesis by simp
  next
    case (Cons c cs)
    with "1.prems" show ?thesis
      by (auto split: if_splits list.splits option.splits dest!: consChar_Inr dest: sub)
  qed
qed

lemma parseChars_fuel: "parseChars cs \<noteq> Inl OutOfFuel"
proof (induction cs rule: length_induct)
  case (1 xs)
  have sub: "parseChars ys = Inl OutOfFuel \<Longrightarrow> length ys < length xs \<Longrightarrow> False" for ys
    using "1.IH" by blast
  show ?case
  proof (cases xs)
    case Nil
    then show ?thesis by simp
  next
    case (Cons c cs)
    show ?thesis
    proof
      assume "parseChars xs = Inl OutOfFuel"
      with Cons show False
        by (auto split: if_splits list.splits option.splits dest!: consChar_fuel dest: sub)
    qed
  qed
qed

lemma fracPart_length: "fracPart cs = Some (b, r) \<Longrightarrow> length r \<le> length cs"
  using length_dropWhile_le [of isDigit "tl cs"]
  by (auto simp: fracPart_def split: list.splits if_splits)

lemma expPart_length: "expPart cs = Some (b, r) \<Longrightarrow> length r \<le> length cs"
proof (cases cs)
  case Nil
  assume "expPart cs = Some (b, r)"
  with Nil show ?thesis by (simp add: expPart_def)
next
  case (Cons c rest)
  assume e: "expPart cs = Some (b, r)"
  show ?thesis
  proof (cases "c = CHR ''e'' \<or> c = CHR ''E''")
    case False
    with e Cons show ?thesis by (auto simp: expPart_def)
  next
    case True
    define ds where "ds = (case rest of s # r \<Rightarrow> if s = CHR ''+'' \<or> s = CHR ''-'' then r else rest
                       | [] \<Rightarrow> rest)"
    have "length ds \<le> length rest" by (auto simp: ds_def split: list.splits)
    moreover have "r = dropWhile isDigit ds"
      using e Cons True by (auto simp: expPart_def Let_def ds_def split: if_splits)
    ultimately show ?thesis
      using length_dropWhile_le [of isDigit ds] Cons by simp
  qed
qed

lemma parseNumber_fuel: "parseNumber cs \<noteq> Inl OutOfFuel"
  by (auto simp: parseNumber_def Let_def split: option.splits prod.splits if_splits)

lemma parseNumber_shorter:
  assumes "parseNumber cs = Inr (v, r)"
  shows "length r < length cs"
proof -
  define neg where "neg = (case cs of c # _ \<Rightarrow> c = CHR ''-'' | [] \<Rightarrow> False)"
  define body where "body = (if neg then tl cs else cs)"
  define ds where "ds = (case body of c # _ \<Rightarrow> if c = CHR ''0'' then [c] else takeWhile isDigit body
                | [] \<Rightarrow> [])"
  define after where "after = drop (length ds) body"
  have p: "parseNumber cs =
     (if ds = [] then Inl SyntaxError
         else case fracPart after of
           None \<Rightarrow> Inl SyntaxError
         | Some (hasFrac, after1) \<Rightarrow>
             (case expPart after1 of
                None \<Rightarrow> Inl SyntaxError
              | Some (hasExp, after2) \<Rightarrow>
                  if hasFrac \<or> hasExp \<or> natOfDigits ds > MAX_SAFE_INTEGER then Inl NotModelled
                  else Inr (JNum (if neg then - int (natOfDigits ds) else int (natOfDigits ds)), after2)))"
    by (simp only: parseNumber_def Let_def neg_def body_def ds_def after_def)
  from assms p have nz: "ds \<noteq> []" by (auto split: if_splits)
  then have b: "body \<noteq> []" by (auto simp: ds_def)
  have "length ds \<le> length body"
    using length_takeWhile_le [of isDigit body] b by (auto simp: ds_def split: list.splits)
  with nz have a: "length after < length body" using b by (cases ds) (auto simp: after_def)
  have lb: "length body \<le> length cs" by (auto simp: body_def)
  from assms p nz obtain hf a1 he where f: "fracPart after = Some (hf, a1)"
    and e: "expPart a1 = Some (he, r)"
    by (auto split: option.splits prod.splits if_splits)
  from fracPart_length [OF f] expPart_length [OF e] a lb show ?thesis by simp
qed

lemma parseLiteral_fuel: "parseLiteral cs \<noteq> Inl OutOfFuel"
  by (simp add: parseLiteral_def)

lemma take_length: "take k cs = xs \<Longrightarrow> length xs = k \<Longrightarrow> k \<le> length cs"
  by (metis length_take min.cobounded1 min_def nat_le_linear)

lemma parseLiteral_shorter: "parseLiteral cs = Inr (v, r) \<Longrightarrow> length r < length cs"
proof -
  assume a: "parseLiteral cs = Inr (v, r)"
  then consider "take 4 cs = ''null''" "r = drop 4 cs" | "take 4 cs = ''true''" "r = drop 4 cs"
    | "take 5 cs = ''false''" "r = drop 5 cs"
    by (auto simp: parseLiteral_def split: if_splits)
  then show ?thesis
  proof cases
    case 1
    then have "4 \<le> length cs" using take_length [of 4 cs "''null''"] by simp
    with 1 show ?thesis by simp
  next
    case 2
    then have "4 \<le> length cs" using take_length [of 4 cs "''true''"] by simp
    with 2 show ?thesis by simp
  next
    case 3
    then have "5 \<le> length cs" using take_length [of 5 cs "''false''"] by simp
    with 3 show ?thesis by simp
  qed
qed

lemma fuelled_value:
  assumes "fuelled n" and "2 * length cs < Suc n"
  shows "parseValue (Suc n) cs \<noteq> Inl OutOfFuel \<and>
         (\<forall>v r. parseValue (Suc n) cs = Inr (v, r) \<longrightarrow> length r < length cs)"
proof (cases "skipWs cs")
  case Nil
  then show ?thesis by simp
next
  case (Cons c rest)
  have lr: "length rest < length cs" using Cons by (rule skipWs_Cons)
  have mem: "parseMembers n [] rest \<noteq> Inl OutOfFuel \<and>
         (\<forall>v r. parseMembers n [] rest = Inr (v, r) \<longrightarrow> length r < length rest)"
    using assms lr by (simp add: fuelled_def)
  have el: "parseElems n [] rest \<noteq> Inl OutOfFuel \<and>
         (\<forall>v r. parseElems n [] rest = Inr (v, r) \<longrightarrow> length r < length rest)"
    using assms lr by (simp add: fuelled_def)
  consider (obj) "c = CHR ''{''" | (arr) "c \<noteq> CHR ''{''" "c = CHR ''[''"
    | (str) "c \<noteq> CHR ''{''" "c \<noteq> CHR ''[''" "c = CHR 0x22"
    | (num) "c \<noteq> CHR ''{''" "c \<noteq> CHR ''[''" "c \<noteq> CHR 0x22" "c = CHR ''-'' \<or> isDigit c"
    | (lit) "c \<noteq> CHR ''{''" "c \<noteq> CHR ''[''" "c \<noteq> CHR 0x22" "\<not> (c = CHR ''-'' \<or> isDigit c)"
    by blast
  then show ?thesis
  proof cases
    case obj
    show ?thesis
    proof (cases "skipWs rest")
      case Nil
      with Cons obj show ?thesis by simp
    next
      case inner: (Cons d r)
      have "length r < length rest" using inner by (rule skipWs_Cons)
      with Cons obj inner mem lr show ?thesis by auto
    qed
  next
    case arr
    show ?thesis
    proof (cases "skipWs rest")
      case Nil
      with Cons arr show ?thesis by simp
    next
      case inner: (Cons d r)
      have "length r < length rest" using inner by (rule skipWs_Cons)
      with Cons arr inner el lr show ?thesis by auto
    qed
  next
    case str
    with Cons lr show ?thesis
      using parseChars_fuel [of rest] parseChars_shorter [of rest]
      by (auto split: sum.splits)
  next
    case num
    have "length (c # rest) \<le> length cs" using lr by simp
    with Cons num show ?thesis
      using parseNumber_fuel [of "c # rest"] parseNumber_shorter [of "c # rest"]
      by (simp del: length_Cons) (metis le_trans not_le)
  next
    case lit
    have "length (c # rest) \<le> length cs" using lr by simp
    with Cons lit show ?thesis
      using parseLiteral_fuel [of "c # rest"] parseLiteral_shorter [of "c # rest"]
      by (simp del: length_Cons) (metis le_trans not_le)
  qed
qed

lemma fuelled_elems:
  assumes "fuelled n" and "2 * length cs + 1 < Suc n"
  shows "parseElems (Suc n) acc cs \<noteq> Inl OutOfFuel \<and>
         (\<forall>v r. parseElems (Suc n) acc cs = Inr (v, r) \<longrightarrow> length r < length cs)"
proof (cases "parseValue n cs")
  case (Inl e)
  have "e \<noteq> OutOfFuel" using assms Inl by (auto simp: fuelled_def)
  with Inl show ?thesis by simp
next
  case (Inr p)
  obtain v rest where p: "p = (v, rest)" by (cases p)
  have lr: "length rest < length cs" using assms Inr p by (auto simp: fuelled_def)
  show ?thesis
  proof (cases "skipWs rest")
    case Nil
    with Inr p show ?thesis by simp
  next
    case (Cons d r)
    have l: "length r < length rest" using Cons by (rule skipWs_Cons)
    then have "2 * length r + 1 < n" using lr assms(2) by simp
    then have "parseElems n (acc @ [v]) r \<noteq> Inl OutOfFuel \<and>
         (\<forall>w r'. parseElems n (acc @ [v]) r = Inr (w, r') \<longrightarrow> length r' < length r)"
      using assms(1) by (simp add: fuelled_def)
    with Inr p Cons l lr show ?thesis by auto
  qed
qed

lemma fuelled_members:
  assumes "fuelled n" and "2 * length cs + 1 < Suc n"
  shows "parseMembers (Suc n) acc cs \<noteq> Inl OutOfFuel \<and>
         (\<forall>v r. parseMembers (Suc n) acc cs = Inr (v, r) \<longrightarrow> length r < length cs)"
proof (cases "skipWs cs")
  case Nil
  then show ?thesis by simp
next
  case (Cons q r0)
  have l0: "length r0 < length cs" using Cons by (rule skipWs_Cons)
  show ?thesis
  proof (cases "q = CHR 0x22")
    case False
    with Cons show ?thesis by simp
  next
    case True
    show ?thesis
    proof (cases "parseChars r0")
      case (Inl e)
      have "e \<noteq> OutOfFuel" using parseChars_fuel [of r0] Inl by auto
      with Cons True Inl show ?thesis by simp
    next
      case (Inr p)
      obtain k r1 where p: "p = (k, r1)" by (cases p)
      have l1: "length r1 < length r0" using Inr p parseChars_shorter by blast
      show ?thesis
      proof (cases "skipWs r1")
        case Nil
        with Cons True Inr p show ?thesis by simp
      next
        case colon: (Cons c r2)
        have l2: "length r2 < length r1" using colon by (rule skipWs_Cons)
        show ?thesis
        proof (cases "c = CHR '':''")
          case False
          with Cons True Inr p colon show ?thesis by simp
        next
          case isColon: True
          have f2: "2 * length r2 < n" using l0 l1 l2 assms(2) by simp
          show ?thesis
          proof (cases "parseValue n r2")
            case bad: (Inl e)
            have "e \<noteq> OutOfFuel" using assms(1) f2 bad by (auto simp: fuelled_def)
            with Cons True Inr p colon isColon bad show ?thesis by simp
          next
            case good: (Inr pv)
            obtain v r3 where pv: "pv = (v, r3)" by (cases pv)
            have l3: "length r3 < length r2" using assms(1) f2 good pv by (auto simp: fuelled_def)
            show ?thesis
            proof (cases "skipWs r3")
              case Nil
              with Cons True Inr p colon isColon good pv show ?thesis by simp
            next
              case sep: (Cons d r4)
              have l4: "length r4 < length r3" using sep by (rule skipWs_Cons)
              then have "2 * length r4 + 1 < n" using l0 l1 l2 l3 assms(2) by simp
              then have "parseMembers n (AList.update k v acc) r4 \<noteq> Inl OutOfFuel \<and>
                 (\<forall>w r'. parseMembers n (AList.update k v acc) r4 = Inr (w, r') \<longrightarrow>
                    length r' < length r4)"
                using assms(1) by (simp add: fuelled_def)
              with Cons True Inr p colon isColon good pv sep l0 l1 l2 l3 l4 show ?thesis
                by auto
            qed
          qed
        qed
      qed
    qed
  qed
qed

lemma fuelled_all: "fuelled n"
proof (induction n)
  case 0
  show ?case by (simp add: fuelled_def)
next
  case (Suc n)
  show ?case
    unfolding fuelled_def
    using fuelled_value [OF Suc] fuelled_elems [OF Suc] fuelled_members [OF Suc]
    by blast
qed

lemma JSON_parse_total: "JSON_parse s \<noteq> Inl OutOfFuel"
proof -
  have "parseValue (2 * length s + 1) s \<noteq> Inl OutOfFuel"
    using fuelled_all [of "2 * length s + 1"] by (simp add: fuelled_def del: parseValue.simps)
  then show ?thesis
    by (auto simp: JSON_parse_def simp del: parseValue.simps split: sum.splits)
qed

subsection \<open>Saving and loading\<close>

lemma cacheFileName_inj: "(cacheFileName u' = cacheFileName u) = (u' = u)"
  by (simp add: cacheFileName_def)

lemma update_listed_once:
  "distinct (map fst al) \<Longrightarrow> length (filter (\<lambda>n. n = k) (map fst (AList.update k v al))) = 1"
proof (induction al)
  case Nil
  then show ?case by simp
next
  case (Cons p al)
  show ?case
  proof (cases "fst p = k")
    case True
    with Cons.prems have "k \<notin> fst ` set al" by auto
    then have "filter (\<lambda>n. n = k) (map fst al) = []"
      by (auto simp: filter_empty_conv)
    with True show ?thesis by (cases p) simp
  next
    case False
    with Cons show ?thesis by (cases p) simp
  qed
qed

lemma readCachedToken_written:
  assumes "entryName n" and "safeJson c"
  shows "readCachedToken n (Folder (AList.update n (JSON_stringify c) al)) = Inr c"
  using assms
  by (simp add: readCachedToken_def fs_readFile_def update_conv' JSON_parse_stringify)

lemma readCachedToken_other:
  "n' \<noteq> n \<Longrightarrow>
     readCachedToken n' (Folder (AList.update n text al)) = readCachedToken n' (Folder al)"
  by (simp add: readCachedToken_def fs_readFile_def update_conv')

lemma safe_exampleToken: "safeJson exampleToken"
  by (simp add: exampleToken_def MAX_SAFE_INTEGER_def)

text \<open>
  Claim C8. For every user id \<open>u\<close> (that names an entry of the folder) and credential \<open>c\<close> (a
  JSON value with safe integers): saving \<open>c\<close> for \<open>u\<close> with \<open>cacheTwitchAccessToken\<close> and reading
  the file back as the start of the server does yields \<open>c\<close>; the folder then lists exactly one
  entry for \<open>u\<close>; saving \<open>c'\<close> afterwards gives the folder that saving \<open>c'\<close> alone gives, and
  \<open>c'\<close> is read back; different user ids have different files, and saving for \<open>u\<close> leaves
  what is read for another user as it was.
\<close>

theorem save_then_load_round_trip:
  assumes "entryName u" and "safeJson c" and "safeJson c'"
  shows "perform (cacheTwitchAccessToken u c) (Folder fl) =
       Inr (Folder (AList.update (cacheFileName u) (JSON_stringify c) fl))
    \<and> readCachedToken (cacheFileName u)
         (Folder (AList.update (cacheFileName u) (JSON_stringify c) fl)) = Inr c
    \<and> (distinct (map fst fl) \<longrightarrow>
         distinct (map fst (AList.update (cacheFileName u) (JSON_stringify c) fl)) \<and>
         length (filter (\<lambda>n. n = cacheFileName u)
           (map fst (AList.update (cacheFileName u) (JSON_stringify c) fl))) = 1)
    \<and> perform (cacheTwitchAccessToken u c')
         (Folder (AList.update (cacheFileName u) (JSON_stringify c) fl)) =
       Inr (Folder (AList.update (cacheFileName u) (JSON_stringify c') fl))
    \<and> readCachedToken (cacheFileName u)
         (Folder (AList.update (cacheFileName u) (JSON_stringify c') fl)) = Inr c'
    \<and> (cacheFileName u' = cacheFileName u) = (u' = u)
    \<and> (u' \<noteq> u \<longrightarrow>
         readCachedToken (cacheFileName u')
           (Folder (AList.update (cacheFileName u) (JSON_stringify c) fl)) =
         readCachedToken (cacheFileName u') (Folder fl))"
proof -
  have n: "entryName (cacheFileName u)" using assms(1) by (simp add: entryName_cacheFileName)
  have w: "perform (cacheTwitchAccessToken u x) (Folder al) =
      Inr (Folder (AList.update (cacheFileName u) (JSON_stringify x) al))" for x al
    using n by (simp add: cacheTwitchAccessToken_def fs_writeFile_def)
  have c1: "perform (cacheTwitchAccessToken u c) (Folder fl) =
       Inr (Folder (AList.update (cacheFileName u) (JSON_stringify c) fl))"
    by (rule w)
  have c2: "readCachedToken (cacheFileName u)
         (Folder (AList.update (cacheFileName u) (JSON_stringify c) fl)) = Inr c"
    using n assms(2) by (rule readCachedToken_written)
  have c3: "distinct (map fst fl) \<longrightarrow>
         distinct (map fst (AList.update (cacheFileName u) (JSON_stringify c) fl)) \<and>
         length (filter (\<lambda>n. n = cacheFileName u)
           (map fst (AList.update (cacheFileName u) (JSON_stringify c) fl))) = 1"
    using update_listed_once [of fl "cacheFileName u" "JSON_stringify c"]
      distinct_update [of fl "cacheFileName u" "JSON_stringify c"]
    by blast
  have c4: "perform (cacheTwitchAccessToken u c')
         (Folder (AList.update (cacheFileName u) (JSON_stringify c) fl)) =
       Inr (Folder (AList.update (cacheFileName u) (JSON_stringify c') fl))"
    by (simp only: w update_last)
  have c5: "readCachedToken (cacheFileName u)
         (Folder (AList.update (cacheFileName u) (JSON_stringify c') fl)) = Inr c'"
    using n assms(3) by (rule readCachedToken_written)
  have c6: "(cacheFileName u' = cacheFileName u) = (u' = u)"
    by (rule cacheFileName_inj)
  have c7: "u' \<noteq> u \<longrightarrow>
         readCachedToken (cacheFileName u')
           (Folder (AList.update (cacheFileName u) (JSON_stringify c) fl)) =
         readCachedToken (cacheFileName u') (Folder fl)"
    using readCachedToken_other [of "cacheFileName u'" "cacheFileName u"] c6 by blast
  from c1 c2 c3 c4 c5 c6 c7 show ?thesis by blast
qed

text \<open>The statement at the example values.\<close>

theorem save_then_load_round_trip_witness:
  "entryName ''4242'' \<and> safeJson exampleToken \<and> safeJson JNull
   \<and> distinct (map fst [(''twitch.7.json'', ''null'')])
   \<and> ''7'' \<noteq> ''4242''
   \<and> readCachedToken (cacheFileName ''4242'')
        (Folder (AList.update (cacheFileName ''4242'') (JSON_stringify exampleToken)
          [(''twitch.7.json'', ''null'')])) = Inr exampleToken
   \<and> length (filter (\<lambda>n. n = cacheFileName ''4242'')
        (map fst (AList.update (cacheFileName ''4242'') (JSON_stringify exampleToken)
          [(''twitch.7.json'', ''null'')]))) = 1
   \<and> readCachedToken (cacheFileName ''7'')
        (Folder (AList.update (cacheFileName ''4242'') (JSON_stringify exampleToken)
          [(''twitch.7.json'', ''null'')])) =
      readCachedToken (cacheFileName ''7'') (Folder [(''twitch.7.json'', ''null'')])"
proof -
  have e: "entryName ''4242''" by (simp add: entryName_def)
  have j: "safeJson JNull" by simp
  have d: "distinct (map fst [(''twitch.7.json'', ''null'')])" by simp
  have u: "''7'' \<noteq> ''4242''" by simp
  from save_then_load_round_trip [OF e safe_exampleToken j,
      of "[(''twitch.7.json'', ''null'')]" "''7''"]
  show ?thesis using e safe_exampleToken j d u by blast
qed

subsection \<open>File names at the start of the server\<close>

lemma splitOn_head: "\<exists>rest. splitOn sep s = takeWhile (\<lambda>c. c \<noteq> sep) s # rest"
  by (induction s) (auto split: list.splits)

lemma startsWith_decompose: "startsWith s p \<Longrightarrow> s = p @ drop (length p) s"
  by (metis append_take_drop_id startsWith_def)

lemma userIdOf_prefixed:
  "userIdOf (''twitch.'' @ r) = Some (takeWhile (\<lambda>c. c \<noteq> CHR ''.'') r)"
proof -
  obtain rest where "splitOn CHR ''.'' r = takeWhile (\<lambda>c. c \<noteq> CHR ''.'') r # rest"
    using splitOn_head by blast
  moreover have "splitOn CHR ''.'' (''twitch'' @ CHR ''.'' # r) = ''twitch'' # splitOn CHR ''.'' r"
    by (rule splitOn_append) simp
  ultimately show ?thesis by (simp add: userIdOf_def)
qed

lemma takeWhile_json: "takeWhile (\<lambda>c. c \<noteq> CHR ''.'') (u @ ''.json'') = takeWhile (\<lambda>c. c \<noteq> CHR ''.'') u"
  by (induction u) simp_all

lemma takeWhile_all_iff: "(takeWhile P xs = xs) = (\<forall>x \<in> set xs. P x)"
  by (induction xs) auto

lemma userIdOf_123: "userIdOf ''twitch.123.json'' = Some ''123''"
  using userIdOf_prefixed [of "''123.json''"] by simp

lemma userIdOf_4242: "userIdOf ''twitch.4242.json'' = Some ''4242''"
  using userIdOf_prefixed [of "''4242.json''"] by simp

lemma loadEntries_throw:
  "thrown (loadEntry sdk srv fs f) = Some e \<Longrightarrow>
     loadEntries sdk srv fs (f # rest) = loadEntry sdk srv fs f"
  by (simp add: Let_def)

lemma loadEntry_unreadable:
  "startsWith f ''twitch.'' \<Longrightarrow> userIdOf f = Some uid \<Longrightarrow> readCachedToken f fs = Inl e \<Longrightarrow>
     loadEntry sdk srv fs f = \<lparr> effects = [], thrown = Some e \<rparr>"
  by (simp add: loadEntry_def)

lemma loadEntry_falsy:
  "startsWith f ''twitch.'' \<Longrightarrow> userIdOf f = Some uid \<Longrightarrow> readCachedToken f fs = Inr tok \<Longrightarrow>
     \<not> truthy tok \<Longrightarrow>
     loadEntry sdk srv fs f = \<lparr> effects = [Start (uncacheTwitchAccessToken uid)], thrown = None \<rparr>"
  by (simp add: loadEntry_def)

lemma loadEntry_registers:
  "startsWith f ''twitch.'' \<Longrightarrow> userIdOf f = Some uid \<Longrightarrow> readCachedToken f fs = Inr tok \<Longrightarrow>
     truthy tok \<Longrightarrow>
     \<exists>es. effects (loadEntry sdk srv fs f) = AddUser uid tok # es"
  by (auto simp: loadEntry_def split: sum.splits option.splits)

lemma loadEntry_loaded:
  assumes "startsWith f ''twitch.''" and "userIdOf f = Some uid"
    and "readCachedToken f fs = Inr tok" and "truthy tok"
    and "addUser sdk uid tok = Inr ()" and "getUserById sdk uid = Inr (Some u)"
  shows "loadEntry sdk srv fs f =
     \<lparr> effects = [AddUser uid tok, GetUserById uid,
                  ConsoleLog (''Loaded twitch user '' @ name u @ '' ('' @ uid @ '')'')]
                 @ (if name u = user (botConfig srv) then [CreateBot u] else []),
       thrown = None \<rparr>"
  using assms by (simp add: loadEntry_def)

subsection \<open>The loop over the listed files\<close>

lemma loadEntry_skipped:
  "\<not> startsWith f ''twitch.'' \<Longrightarrow> loadEntry sdk srv fs f = \<lparr> effects = [], thrown = None \<rparr>"
  by (simp add: loadEntry_def)

lemma loadEntries_skip:
  "\<not> startsWith f ''twitch.'' \<Longrightarrow>
     loadEntries sdk srv fs (names @ f # rest) = loadEntries sdk srv fs (names @ rest)"
  by (induction names) (simp_all add: loadEntry_skipped Let_def split: option.splits)

lemma loadEntries_filter:
  "loadEntries sdk srv fs (filter (\<lambda>f. startsWith f ''twitch.'') names) =
     loadEntries sdk srv fs names"
  by (induction names) (simp_all add: loadEntry_skipped Let_def split: option.splits)

lemma loadEntries_completed:
  "thrown (loadEntries sdk srv fs names) = None \<Longrightarrow> f \<in> set names \<Longrightarrow>
     thrown (loadEntry sdk srv fs f) = None \<and>
     set (effects (loadEntry sdk srv fs f)) \<subseteq> set (effects (loadEntries sdk srv fs names))"
proof (induction names)
  case Nil
  then show ?case by simp
next
  case (Cons x xs)
  show ?case
  proof (cases "thrown (loadEntry sdk srv fs x)")
    case (Some e)
    with Cons.prems(1) show ?thesis by (simp add: Let_def)
  next
    case None
    with Cons.prems(1) have t: "thrown (loadEntries sdk srv fs xs) = None"
      by (simp add: Let_def)
    show ?thesis
    proof (cases "f = x")
      case True
      with None show ?thesis by (auto simp: Let_def)
    next
      case False
      with Cons.prems(2) have "f \<in> set xs" by simp
      from Cons.IH [OF t this] None show ?thesis by (auto simp: Let_def)
    qed
  qed
qed

lemma loadEntries_effects_origin:
  "e \<in> set (effects (loadEntries sdk srv fs names)) \<Longrightarrow>
     \<exists>f. f \<in> set names \<and> e \<in> set (effects (loadEntry sdk srv fs f))"
proof (induction names)
  case Nil
  then show ?case by simp
next
  case (Cons x xs)
  show ?case
  proof (cases "thrown (loadEntry sdk srv fs x)")
    case (Some err)
    with Cons.prems show ?thesis by (auto simp: Let_def)
  next
    case None
    with Cons.prems have "e \<in> set (effects (loadEntry sdk srv fs x)) \<or>
        e \<in> set (effects (loadEntries sdk srv fs xs))"
      by (auto simp: Let_def)
    then show ?thesis using Cons.IH by auto
  qed
qed

lemma loadEntry_AddUser_origin:
  "AddUser uid tok \<in> set (effects (loadEntry sdk srv fs f)) \<Longrightarrow>
     startsWith f ''twitch.'' \<and> userIdOf f = Some uid \<and> readCachedToken f fs = Inr tok \<and>
     truthy tok"
  by (auto simp: loadEntry_def uncacheTwitchAccessToken_def
      split: if_splits option.splits sum.splits)

lemma settle_cacheTwitchAccessToken:
  "entryName u \<Longrightarrow>
     settle (cacheTwitchAccessToken u tok) (Folder fl) =
       Folder (AList.update (cacheFileName u) (JSON_stringify tok) fl)"
  by (simp add: settle_def cacheTwitchAccessToken_def fs_writeFile_def entryName_cacheFileName)

lemma bootstrap_twitch_files:
  "loadCachedTwitchAccessTokens sdk srv (Folder fl) =
     loadEntries sdk srv (Folder fl) (filter (\<lambda>f. startsWith f ''twitch.'') (map fst fl))"
  by (simp add: loadCachedTwitchAccessTokens_def fs_readdir_def loadEntries_filter)

lemma bootstrap_registers_saved:
  assumes "entryName u" and "safeJson tok" and "truthy tok"
    and "thrown (loadCachedTwitchAccessTokens sdk srv
           (settle (cacheTwitchAccessToken u tok) (Folder fl))) = None"
  shows "AddUser (takeWhile (\<lambda>c. c \<noteq> CHR ''.'') u) tok \<in>
     set (effects (loadCachedTwitchAccessTokens sdk srv
           (settle (cacheTwitchAccessToken u tok) (Folder fl))))"
proof -
  let ?fl = "AList.update (cacheFileName u) (JSON_stringify tok) fl"
  have s: "settle (cacheTwitchAccessToken u tok) (Folder fl) = Folder ?fl"
    using assms(1) by (rule settle_cacheTwitchAccessToken)
  have l: "loadCachedTwitchAccessTokens sdk srv (Folder ?fl) =
      loadEntries sdk srv (Folder ?fl) (map fst ?fl)"
    by (simp add: loadCachedTwitchAccessTokens_def fs_readdir_def)
  have m: "cacheFileName u \<in> set (map fst ?fl)"
    by (simp add: dom_update)
  have t: "thrown (loadEntries sdk srv (Folder ?fl) (map fst ?fl)) = None"
    using assms(4) unfolding s l .
  have r: "readCachedToken (cacheFileName u) (Folder ?fl) = Inr tok"
    using assms(1,2) by (intro readCachedToken_written) (simp_all add: entryName_cacheFileName)
  have p: "startsWith (cacheFileName u) ''twitch.''"
    by (simp add: startsWith_def cacheFileName_def)
  have i: "userIdOf (cacheFileName u) = Some (takeWhile (\<lambda>c. c \<noteq> CHR ''.'') u)"
    using userIdOf_prefixed [of "u @ ''.json''"] by (simp add: cacheFileName_def takeWhile_json)
  from loadEntry_registers [OF p i r assms(3), of sdk srv]
  have "AddUser (takeWhile (\<lambda>c. c \<noteq> CHR ''.'') u) tok \<in>
      set (effects (loadEntry sdk srv (Folder ?fl) (cacheFileName u)))"
    by auto
  with loadEntries_completed [OF t m] show ?thesis
    unfolding s l by blast
qed

lemma bootstrap_registration_origin:
  assumes "AddUser uid tok \<in> set (effects (loadCachedTwitchAccessTokens sdk srv fs))"
  shows "\<exists>names f. fs_readdir fs = Inr names \<and> f \<in> set names \<and> startsWith f ''twitch.'' \<and>
     userIdOf f = Some uid \<and> readCachedToken f fs = Inr tok"
proof (cases "fs_readdir fs")
  case (Inl e)
  with assms show ?thesis by (simp add: loadCachedTwitchAccessTokens_def)
next
  case (Inr names)
  with assms have "AddUser uid tok \<in> set (effects (loadEntries sdk srv fs names))"
    by (simp add: loadCachedTwitchAccessTokens_def)
  then obtain f where "f \<in> set names"
    and "AddUser uid tok \<in> set (effects (loadEntry sdk srv fs f))"
    using loadEntries_effects_origin by blast
  with Inr loadEntry_AddUser_origin [of uid tok sdk srv fs f] show ?thesis by blast
qed

text \<open>
  Claim C10. At the start, the user id registered for a cache file is the part of its name
  between the prefix \<open>twitch.\<close> and the next dot; a file whose name does not start with
  \<open>twitch.\<close> is skipped without any effect. So for the file of a saved user id \<open>u\<close> the id read
  back is \<open>u\<close> cut at its first dot, which is \<open>u\<close> exactly when \<open>u\<close> has no dot; and loading
  the file saved for \<open>u\<close> registers the saved token under that cut id.

  For the whole of \<open>loadCachedTwitchAccessTokens\<close>: a skipped file does not stop the loop (the
  loop over a listing is the loop over the listing without it, and the bootstrap of a folder is
  the loop over its names that start with \<open>twitch.\<close>); after \<open>cacheTwitchAccessToken\<close> has
  written the token of \<open>u\<close> into any folder, a bootstrap that completes (nothing in it throws)
  calls \<open>addUser\<close> with \<open>u\<close> cut at its first dot and the saved token; and every \<open>addUser\<close> of
  a bootstrap has the id that \<open>split\<close> takes from the name of a listed file that starts with
  \<open>twitch.\<close>, and the token read from that file.
\<close>

theorem bootstrap_user_id_from_file_name:
  "(startsWith fileName ''twitch.'' \<longrightarrow>
      userIdOf fileName = Some (takeWhile (\<lambda>c. c \<noteq> CHR ''.'') (drop 7 fileName)))
   \<and> (\<not> startsWith fileName ''twitch.'' \<longrightarrow>
      loadEntry sdk srv fs fileName = \<lparr> effects = [], thrown = None \<rparr>)
   \<and> startsWith (cacheFileName u) ''twitch.''
   \<and> userIdOf (cacheFileName u) = Some (takeWhile (\<lambda>c. c \<noteq> CHR ''.'') u)
   \<and> (userIdOf (cacheFileName u) = Some u) = (CHR ''.'' \<notin> set u)
   \<and> (entryName u \<and> safeJson tok \<and> truthy tok \<longrightarrow>
        (\<exists>es. effects (loadEntry sdk srv
                 (Folder (AList.update (cacheFileName u) (JSON_stringify tok) fl))
                 (cacheFileName u)) =
              AddUser (takeWhile (\<lambda>c. c \<noteq> CHR ''.'') u) tok # es))
   \<and> (\<not> startsWith fileName ''twitch.'' \<longrightarrow>
        loadEntries sdk srv fs (names @ fileName # rest) = loadEntries sdk srv fs (names @ rest))
   \<and> loadCachedTwitchAccessTokens sdk srv (Folder fl) =
        loadEntries sdk srv (Folder fl) (filter (\<lambda>f. startsWith f ''twitch.'') (map fst fl))
   \<and> (entryName u \<and> safeJson tok \<and> truthy tok \<and>
       thrown (loadCachedTwitchAccessTokens sdk srv
         (settle (cacheTwitchAccessToken u tok) (Folder fl))) = None \<longrightarrow>
        AddUser (takeWhile (\<lambda>c. c \<noteq> CHR ''.'') u) tok \<in>
          set (effects (loadCachedTwitchAccessTokens sdk srv
            (settle (cacheTwitchAccessToken u tok) (Folder fl)))))
   \<and> (AddUser uid tok' \<in> set (effects (loadCachedTwitchAccessTokens sdk srv fs)) \<longrightarrow>
        (\<exists>listed f. fs_readdir fs = Inr listed \<and> f \<in> set listed \<and> startsWith f ''twitch.'' \<and>
           userIdOf f = Some uid \<and> readCachedToken f fs = Inr tok'))"
proof -
  have a: "startsWith fileName ''twitch.'' \<Longrightarrow>
      userIdOf fileName = Some (takeWhile (\<lambda>c. c \<noteq> CHR ''.'') (drop 7 fileName))"
  proof -
    assume "startsWith fileName ''twitch.''"
    then have "fileName = ''twitch.'' @ drop (length ''twitch.'') fileName"
      by (rule startsWith_decompose)
    moreover have "length ''twitch.'' = 7" by simp
    ultimately have "fileName = ''twitch.'' @ drop 7 fileName" by (simp only:)
    then show ?thesis using userIdOf_prefixed [of "drop 7 fileName"] by metis
  qed
  have b: "userIdOf (cacheFileName u) = Some (takeWhile (\<lambda>c. c \<noteq> CHR ''.'') u)"
    using userIdOf_prefixed [of "u @ ''.json''"] by (simp add: cacheFileName_def takeWhile_json)
  have c: "(takeWhile (\<lambda>c. c \<noteq> CHR ''.'') u = u) = (CHR ''.'' \<notin> set u)"
    by (auto simp: takeWhile_all_iff)
  have d: "startsWith (cacheFileName u) ''twitch.''"
    by (simp add: startsWith_def cacheFileName_def)
  have e: "\<not> startsWith fileName ''twitch.'' \<Longrightarrow>
      loadEntry sdk srv fs fileName = \<lparr> effects = [], thrown = None \<rparr>"
    by (rule loadEntry_skipped)
  have f: "\<exists>es. effects (loadEntry sdk srv
                 (Folder (AList.update (cacheFileName u) (JSON_stringify tok) fl))
                 (cacheFileName u)) =
              AddUser (takeWhile (\<lambda>c. c \<noteq> CHR ''.'') u) tok # es"
    if "entryName u" "safeJson tok" "truthy tok"
  proof -
    have "readCachedToken (cacheFileName u)
        (Folder (AList.update (cacheFileName u) (JSON_stringify tok) fl)) = Inr tok"
      using that by (intro readCachedToken_written) (simp_all add: entryName_cacheFileName)
    from d b this that(3) show ?thesis by (rule loadEntry_registers)
  qed
  have g: "\<not> startsWith fileName ''twitch.'' \<Longrightarrow>
      loadEntries sdk srv fs (names @ fileName # rest) = loadEntries sdk srv fs (names @ rest)"
    by (rule loadEntries_skip)
  note h = bootstrap_twitch_files [of sdk srv fl]
  note i = bootstrap_registers_saved [of u tok sdk srv fl]
  note j = bootstrap_registration_origin [of uid tok' sdk srv fs]
  from a b c d e f g h i j show ?thesis by (simp only: b) blast
qed

text \<open>
  The statement at the example values: the token of \<open>4242\<close> is saved into a folder that holds
  \<open>notes.txt\<close>, and the bootstrap of that folder is evaluated.
\<close>

theorem bootstrap_user_id_from_file_name_witness:
  "startsWith ''twitch.4242.json'' ''twitch.''
   \<and> userIdOf ''twitch.4242.json'' = Some ''4242''
   \<and> \<not> startsWith ''notes.txt'' ''twitch.''
   \<and> loadEntry exampleSdk (newServer exampleConfig) (Folder []) ''notes.txt'' =
       \<lparr> effects = [], thrown = None \<rparr>
   \<and> userIdOf (cacheFileName ''12.34'') = Some ''12''
   \<and> entryName ''4242'' \<and> safeJson exampleToken \<and> truthy exampleToken
   \<and> (\<exists>es. effects (loadEntry exampleSdk (newServer exampleConfig)
                 (Folder (AList.update (cacheFileName ''4242'') (JSON_stringify exampleToken) []))
                 (cacheFileName ''4242'')) =
              AddUser ''4242'' exampleToken # es)
   \<and> settle (cacheTwitchAccessToken ''4242'' exampleToken) (Folder [(''notes.txt'', ''hello'')]) =
       Folder [(''notes.txt'', ''hello''), (''twitch.4242.json'', JSON_stringify exampleToken)]
   \<and> loadCachedTwitchAccessTokens exampleSdk (newServer exampleConfig)
        (settle (cacheTwitchAccessToken ''4242'' exampleToken) (Folder [(''notes.txt'', ''hello'')])) =
       \<lparr> effects = [AddUser ''4242'' exampleToken, GetUserById ''4242'',
                    ConsoleLog ''Loaded twitch user papakumo (4242)'', CreateBot exampleUser],
         thrown = None \<rparr>
   \<and> AddUser ''4242'' exampleToken \<in>
       set (effects (loadCachedTwitchAccessTokens exampleSdk (newServer exampleConfig)
         (settle (cacheTwitchAccessToken ''4242'' exampleToken)
            (Folder [(''notes.txt'', ''hello'')]))))
   \<and> (\<exists>listed f.
         fs_readdir (settle (cacheTwitchAccessToken ''4242'' exampleToken)
            (Folder [(''notes.txt'', ''hello'')])) = Inr listed \<and>
         f \<in> set listed \<and> startsWith f ''twitch.'' \<and> userIdOf f = Some ''4242'' \<and>
         readCachedToken f (settle (cacheTwitchAccessToken ''4242'' exampleToken)
            (Folder [(''notes.txt'', ''hello'')])) = Inr exampleToken)"
proof -
  let ?srv = "newServer exampleConfig"
  let ?fs = "settle (cacheTwitchAccessToken ''4242'' exampleToken)
      (Folder [(''notes.txt'', ''hello'')])"
  let ?saved = "Folder [(''notes.txt'', ''hello''),
      (''twitch.4242.json'', JSON_stringify exampleToken)]"
  have a: "startsWith ''twitch.4242.json'' ''twitch.''" by (simp add: startsWith_def)
  have b: "\<not> startsWith ''notes.txt'' ''twitch.''" by (simp add: startsWith_def)
  have f: "entryName ''4242''" by (simp add: entryName_def)
  have g: "truthy exampleToken" by (simp add: exampleToken_def)
  have t: "takeWhile (\<lambda>c. c \<noteq> CHR ''.'') ''4242'' = ''4242''" by simp
  have s: "?fs = ?saved"
    by (simp add: settle_cacheTwitchAccessToken [OF f] cacheFileName_def)
  have r: "readCachedToken ''twitch.4242.json'' ?saved = Inr exampleToken"
    by (simp add: readCachedToken_def fs_readFile_def entryName_def
        JSON_parse_stringify [OF safe_exampleToken])
  have bot: "user (botConfig ?srv) = ''papakumo''"
    by (simp add: newServer_def Let_def exampleConfig_def)
  have e2: "loadEntry exampleSdk ?srv ?saved ''twitch.4242.json'' =
      \<lparr> effects = [AddUser ''4242'' exampleToken, GetUserById ''4242'',
                   ConsoleLog ''Loaded twitch user papakumo (4242)'', CreateBot exampleUser],
        thrown = None \<rparr>"
    using loadEntry_loaded [of "''twitch.4242.json''" "''4242''" ?saved exampleToken exampleSdk
        exampleUser ?srv] userIdOf_4242 r bot
    by (simp add: startsWith_def exampleSdk_def exampleUser_def exampleToken_def)
  note inst = bootstrap_user_id_from_file_name
    [where fileName = "''notes.txt''" and sdk = exampleSdk and srv = ?srv and u = "''4242''"
       and tok = exampleToken and fl = "[(''notes.txt'', ''hello'')]" and names = "[]"
       and rest = "[''twitch.4242.json'']" and uid = "''4242''" and tok' = exampleToken]
  have l: "loadCachedTwitchAccessTokens exampleSdk ?srv ?fs =
       \<lparr> effects = [AddUser ''4242'' exampleToken, GetUserById ''4242'',
                    ConsoleLog ''Loaded twitch user papakumo (4242)'', CreateBot exampleUser],
         thrown = None \<rparr>"
  proof -
    have "loadCachedTwitchAccessTokens exampleSdk ?srv ?saved =
        loadEntries exampleSdk ?srv ?saved [''twitch.4242.json'']"
      using bootstrap_user_id_from_file_name
        [where sdk = exampleSdk and srv = ?srv and fl = "[(''notes.txt'', ''hello''),
          (''twitch.4242.json'', JSON_stringify exampleToken)]"]
      by (simp add: startsWith_def)
    then show ?thesis unfolding s by (simp add: e2 Let_def)
  qed
  have c: "userIdOf ''twitch.4242.json'' = Some ''4242''"
    using bootstrap_user_id_from_file_name [where fileName = "''twitch.4242.json''"] a by simp
  have d: "userIdOf (cacheFileName ''12.34'') = Some ''12''"
    using bootstrap_user_id_from_file_name [where u = "''12.34''"] by simp
  have e: "loadEntry exampleSdk ?srv (Folder []) ''notes.txt'' =
       \<lparr> effects = [], thrown = None \<rparr>"
    using inst [where fs = "Folder []"] b by blast
  have h: "\<exists>es. effects (loadEntry exampleSdk ?srv
                 (Folder (AList.update (cacheFileName ''4242'') (JSON_stringify exampleToken) []))
                 (cacheFileName ''4242'')) =
              AddUser ''4242'' exampleToken # es"
    using bootstrap_user_id_from_file_name
      [where sdk = exampleSdk and srv = ?srv and u = "''4242''" and tok = exampleToken
         and fl = "[]"]
      f g safe_exampleToken unfolding t by blast
  have th: "thrown (loadCachedTwitchAccessTokens exampleSdk ?srv ?fs) = None"
    by (simp add: l)
  have i: "AddUser ''4242'' exampleToken \<in>
      set (effects (loadCachedTwitchAccessTokens exampleSdk ?srv ?fs))"
    using inst [where fs = ?fs] f g safe_exampleToken th unfolding t by blast
  have j: "\<exists>listed f. fs_readdir ?fs = Inr listed \<and> f \<in> set listed \<and>
      startsWith f ''twitch.'' \<and> userIdOf f = Some ''4242'' \<and>
      readCachedToken f ?fs = Inr exampleToken"
    using inst [where fs = ?fs] i by blast
  from a b c d e f g h s l i j safe_exampleToken show ?thesis by blast
qed

subsection \<open>A cache file that is not JSON\<close>

lemma parseValue_brace: "0 < n \<Longrightarrow> parseValue n ''{'' = Inl SyntaxError"
  by (cases n) (simp_all add: isWs_def)

lemma JSON_parse_brace: "JSON_parse ''{'' = Inl SyntaxError"
  by (simp add: JSON_parse_def parseValue_brace del: parseValue.simps)

text \<open>
  Claim C2. A cache file whose content fails to parse is to be removed and treated as absent,
  the loading going on with the other entries. The code does so when the content is JSON for a
  falsy value (lemma \<open>null_cache_file_is_removed\<close>). When the content is not JSON,
  \<open>JSON.parse\<close> throws: \<open>loadCachedTwitchAccessTokens\<close> rejects with the \<open>SyntaxError\<close>, the entry
  after it is not loaded, no removal is started and the folder is as before. The evaluation, for
  a folder with \<open>twitch.123.json\<close> holding \<open>{\<close> and a good file after it:
\<close>

theorem corrupt_cache_file_aborts_loading:
  "loadCachedTwitchAccessTokens exampleSdk (newServer exampleConfig) corruptCache =
     \<lparr> effects = [], thrown = Some SyntaxError \<rparr>
   \<and> fst (startTurn exampleSdk (newServer exampleConfig) corruptCache) = corruptCache"
proof -
  have r: "readCachedToken ''twitch.123.json'' corruptCache = Inl SyntaxError"
    by (simp add: readCachedToken_def fs_readFile_def corruptCache_def entryName_def
        JSON_parse_brace)
  have s: "startsWith ''twitch.123.json'' ''twitch.''" by (simp add: startsWith_def)
  have e: "loadEntry exampleSdk (newServer exampleConfig) corruptCache ''twitch.123.json'' =
      \<lparr> effects = [], thrown = Some SyntaxError \<rparr>"
    using s userIdOf_123 r by (rule loadEntry_unreadable)
  have d: "fs_readdir corruptCache = Inr [''twitch.123.json'', ''twitch.4242.json'']"
    by (simp add: fs_readdir_def corruptCache_def)
  have l: "loadCachedTwitchAccessTokens exampleSdk (newServer exampleConfig) corruptCache =
     \<lparr> effects = [], thrown = Some SyntaxError \<rparr>"
    unfolding loadCachedTwitchAccessTokens_def d
    using loadEntries_throw [of exampleSdk "newServer exampleConfig" corruptCache
        "''twitch.123.json''" SyntaxError "[''twitch.4242.json'']"] e
    by simp
  show ?thesis
    unfolding startTurn_def l by (simp add: l)
qed

text \<open>The good path of the same loop: \<open>null\<close> in the first file.\<close>

lemma null_cache_file_is_removed:
  "startTurn exampleSdk (newServer exampleConfig) nullCache =
     (Folder [(''twitch.4242.json'', JSON_stringify exampleToken)],
      \<lparr> effects = [Start (Rm ''twitch.123.json''), AddUser ''4242'' exampleToken,
                   GetUserById ''4242'', ConsoleLog ''Loaded twitch user papakumo (4242)'',
                   CreateBot exampleUser],
        thrown = None \<rparr>)"
proof -
  let ?srv = "newServer exampleConfig"
  have r1: "readCachedToken ''twitch.123.json'' nullCache = Inr JNull"
    by (simp add: readCachedToken_def fs_readFile_def nullCache_def entryName_def JSON_parse_null)
  have r2: "readCachedToken ''twitch.4242.json'' nullCache = Inr exampleToken"
    by (simp add: readCachedToken_def fs_readFile_def nullCache_def entryName_def
        JSON_parse_stringify [OF safe_exampleToken])
  have e1: "loadEntry exampleSdk ?srv nullCache ''twitch.123.json'' =
      \<lparr> effects = [Start (uncacheTwitchAccessToken ''123'')], thrown = None \<rparr>"
    by (rule loadEntry_falsy [OF _ userIdOf_123 r1]) (simp_all add: startsWith_def)
  have bot: "user (botConfig ?srv) = ''papakumo''"
    by (simp add: newServer_def Let_def exampleConfig_def)
  have e2: "loadEntry exampleSdk ?srv nullCache ''twitch.4242.json'' =
      \<lparr> effects = [AddUser ''4242'' exampleToken, GetUserById ''4242'',
                   ConsoleLog ''Loaded twitch user papakumo (4242)'', CreateBot exampleUser],
        thrown = None \<rparr>"
    using loadEntry_loaded [of "''twitch.4242.json''" "''4242''" nullCache exampleToken exampleSdk
        exampleUser ?srv] userIdOf_4242 r2 bot
    by (simp add: startsWith_def exampleSdk_def exampleUser_def exampleToken_def)
  have d: "fs_readdir nullCache = Inr [''twitch.123.json'', ''twitch.4242.json'']"
    by (simp add: fs_readdir_def nullCache_def)
  have l: "loadCachedTwitchAccessTokens exampleSdk ?srv nullCache =
      \<lparr> effects = [Start (Rm ''twitch.123.json''), AddUser ''4242'' exampleToken,
                   GetUserById ''4242'', ConsoleLog ''Loaded twitch user papakumo (4242)'',
                   CreateBot exampleUser],
        thrown = None \<rparr>"
    unfolding loadCachedTwitchAccessTokens_def d
    by (simp add: e1 e2 Let_def uncacheTwitchAccessToken_def cacheFileName_def)
  show ?thesis
    unfolding startTurn_def l
    by (simp add: settle_def fs_rm_def nullCache_def entryName_def)
qed

end
